theory Spec2Isabelle
  imports Main "HOL-Library.AList"
begin

section \<open>The experience buffer of rls/memories/er\_buffer.py\<close>

text \<open>
  The class \<open>DataBuffer\<close> keeps, for every top-level key and every field name, one numpy
  array whose first axis is the ring of time slots. The Python code leans on numpy for
  allocation (\<open>np.empty\<close>), slot assignment (\<open>a[p] = v\<close>), index arrays
  (\<open>a[(xs, y)]\<close>) and random integers (\<open>np.random.randint\<close>). Those library calls are
  modelled first, with every exception they can raise as a value; the methods of the class
  follow, line by line.
\<close>

subsection \<open>Exceptions\<close>

datatype error = AssertionError | ValueError | IndexError | ZeroDivisionError

subsection \<open>numpy arrays\<close>

text \<open>
  The numeric dtypes. Conversion between two of them never raises in numpy (assignment
  casts with the rule \<open>unsafe\<close>); what the conversion does to a single element is numpy's
  C code and is a parameter \<open>cast\<close> of the model.
\<close>

datatype dtype = Bool | Int32 | Int64 | Float32 | Float64

text \<open>
  An array is its shape, its dtype and its elements in C (row-major) order. An element
  is \<open>None\<close> while it still holds whatever memory \<open>np.empty\<close> handed out, and
  \<open>Some x\<close> once a value has been stored.
\<close>

record 'a ndarray =
  shape :: "nat list"
  dtype :: dtype
  elems :: "'a option list"

definition wf_array :: "'a ndarray \<Rightarrow> bool" where
  "wf_array a = (length (elems a) = prod_list (shape a))"

text \<open>The \<open>i\<close>-th run of \<open>sz\<close> consecutive elements, and its replacement.\<close>

definition block :: "'b list \<Rightarrow> nat \<Rightarrow> nat \<Rightarrow> 'b list" where
  "block es sz i = take sz (drop (i * sz) es)"

definition put_block :: "'b list \<Rightarrow> nat \<Rightarrow> nat \<Rightarrow> 'b list \<Rightarrow> 'b list" where
  "put_block es sz i vs = take (i * sz) es @ vs @ drop ((i + 1) * sz) es"

text \<open>\<open>np.empty(shape, dtype)\<close>: a negative dimension raises \<open>ValueError\<close>.\<close>

definition np_empty :: "int list \<Rightarrow> dtype \<Rightarrow> error + 'a ndarray" where
  "np_empty shp dt =
     (if list_ex (\<lambda>d. d < 0) shp then Inl ValueError
      else Inr \<lparr>shape = map nat shp, dtype = dt,
                elems = replicate (prod_list (map nat shp)) None\<rparr>)"

text \<open>
  An integer index into an axis of length \<open>n\<close>: Python counts a negative index from the
  end, and anything outside \<open>[-n, n)\<close> raises \<open>IndexError\<close>.
\<close>

definition norm_index :: "int \<Rightarrow> nat \<Rightarrow> error + nat" where
  "norm_index i n =
     (if 0 \<le> i \<and> i < int n then Inr (nat i)
      else if - int n \<le> i \<and> i < 0 then Inr (nat (i + int n))
      else Inl IndexError)"

text \<open>
  Broadcasting a value to the shape of the destination of an assignment. numpy first
  strips unit dimensions from the left of the source while it has more dimensions than
  the destination, then aligns the shapes on the right: every source dimension must equal
  the destination's or be 1. A destination without dimensions is a single element of a
  one-dimensional array, and only a value without dimensions can be stored there: an
  array with an axis, even of one element, raises \<open>ValueError\<close> (numpy 2; older versions
  converted an array of one element and warned).
\<close>

fun strip_ones :: "nat \<Rightarrow> nat list \<Rightarrow> nat list" where
  "strip_ones n [] = []"
| "strip_ones n (d # ds) = (if n < length (d # ds) \<and> d = 1 then strip_ones n ds else d # ds)"

definition pad_ones :: "nat \<Rightarrow> nat list \<Rightarrow> nat list" where
  "pad_ones n s = replicate (n - length s) 1 @ s"

fun compatible :: "nat list \<Rightarrow> nat list \<Rightarrow> bool" where
  "compatible [] [] = True"
| "compatible (s # ss) (d # ds) = ((s = d \<or> s = 1) \<and> compatible ss ds)"
| "compatible _ _ = False"

fun bcast :: "nat list \<Rightarrow> nat list \<Rightarrow> 'b list \<Rightarrow> 'b list" where
  "bcast (s # ss) (d # ds) es =
     (if s = d then concat (map (\<lambda>i. bcast ss ds (block es (prod_list ss) i)) [0..<d])
      else concat (replicate d (bcast ss ds es)))"
| "bcast _ _ es = es"

definition broadcastable :: "nat list \<Rightarrow> nat list \<Rightarrow> bool" where
  "broadcastable src dst =
     (if dst = [] then src = []
      else length (strip_ones (length dst) src) \<le> length dst \<and>
           compatible (pad_ones (length dst) (strip_ones (length dst) src)) dst)"

definition broadcast_to :: "nat list \<Rightarrow> nat list \<Rightarrow> 'b list \<Rightarrow> 'b list option" where
  "broadcast_to src dst es =
     (if broadcastable src dst
      then Some (bcast (pad_ones (length dst) (strip_ones (length dst) src)) dst es)
      else None)"

text \<open>
  \<open>a[p] = v\<close> for an integer \<open>p\<close>: the index is checked first (\<open>IndexError\<close>), then \<open>v\<close>
  is broadcast to the shape of the slot (\<open>ValueError\<close> when it cannot be) and each element
  is converted to the dtype of \<open>a\<close>. Python mutates \<open>a\<close>; the model returns the new array.
\<close>

definition setitem ::
  "(dtype \<Rightarrow> dtype \<Rightarrow> 'a \<Rightarrow> 'a) \<Rightarrow> 'a ndarray \<Rightarrow> int \<Rightarrow> 'a ndarray \<Rightarrow> error + 'a ndarray" where
  "setitem cast a p v =
     (case shape a of
        [] \<Rightarrow> Inl IndexError
      | n # slot \<Rightarrow>
          (case norm_index p n of
             Inl e \<Rightarrow> Inl e
           | Inr i \<Rightarrow>
               (case broadcast_to (shape v) slot (elems v) of
                  None \<Rightarrow> Inl ValueError
                | Some vs \<Rightarrow>
                    Inr (a\<lparr>elems := put_block (elems a) (prod_list slot) i
                                     (map (map_option (cast (dtype v) (dtype a))) vs)\<rparr>))))"

text \<open>
  \<open>a[(xs, y)]\<close> with an index array \<open>xs\<close> of shape \<open>(T, B)\<close> on the first axis and \<open>y\<close> of
  shape \<open>(B,)\<close> on the second: the result has shape \<open>(T, B) + a.shape[2:]\<close> and holds, at
  \<open>[t, b]\<close>, the sub-array \<open>a[xs[t][b], y[b]]\<close>. An array with fewer than two axes raises
  \<open>IndexError\<close>, and so does an index outside its axis. The result is a copy.
\<close>

fun gather_row ::
  "'b list \<Rightarrow> nat \<Rightarrow> nat \<Rightarrow> nat \<Rightarrow> (int \<times> int) list \<Rightarrow> error + 'b list" where
  "gather_row es n0 n1 sz [] = Inr []"
| "gather_row es n0 n1 sz ((i, c) # rest) =
     (case norm_index i n0 of
        Inl e \<Rightarrow> Inl e
      | Inr i' \<Rightarrow>
          (case norm_index c n1 of
             Inl e \<Rightarrow> Inl e
           | Inr c' \<Rightarrow>
               (case gather_row es n0 n1 sz rest of
                  Inl e \<Rightarrow> Inl e
                | Inr r \<Rightarrow> Inr (block es sz (i' * n1 + c') @ r))))"

fun gather_rows ::
  "'b list \<Rightarrow> nat \<Rightarrow> nat \<Rightarrow> nat \<Rightarrow> int list list \<Rightarrow> int list \<Rightarrow> error + 'b list" where
  "gather_rows es n0 n1 sz [] y = Inr []"
| "gather_rows es n0 n1 sz (row # rows) y =
     (case gather_row es n0 n1 sz (zip row y) of
        Inl e \<Rightarrow> Inl e
      | Inr r \<Rightarrow>
          (case gather_rows es n0 n1 sz rows y of
             Inl e \<Rightarrow> Inl e
           | Inr rs \<Rightarrow> Inr (r @ rs)))"

definition getitem :: "'a ndarray \<Rightarrow> int list list \<times> int list \<Rightarrow> error + 'a ndarray" where
  "getitem a idx =
     (case idx of (xs, y) \<Rightarrow>
        (case shape a of
           n0 # n1 # dims \<Rightarrow>
             (case gather_rows (elems a) n0 n1 (prod_list dims) xs y of
                Inl e \<Rightarrow> Inl e
              | Inr es \<Rightarrow> Inr \<lparr>shape = length xs # length y # dims, dtype = dtype a, elems = es\<rparr>)
         | _ \<Rightarrow> Inl IndexError))"

subsection \<open>The random source\<close>

text \<open>
  \<open>np.random\<close> is process-wide state. It is modelled as the sequence of raw numbers the
  generator is still going to produce, whatever generator it is.
  \<open>np.random.randint(low, high, size)\<close> returns \<open>size\<close> integers, each at least \<open>low\<close> and
  below \<open>high\<close>, and consumes the numbers it used. The integers are of the dtype \<open>int64\<close>:
  a \<open>low\<close> below \<open>-2^63\<close> or a \<open>high\<close> above \<open>2^63\<close> raises \<open>ValueError\<close>, and so does an
  empty range; neither is looked at when nothing is drawn. A negative \<open>size\<close> raises
  \<open>ValueError\<close> too.
\<close>

type_synonym rng = "nat \<Rightarrow> nat"

definition int64_range :: "int \<Rightarrow> int \<Rightarrow> bool" where
  "int64_range low high = (- (2 ^ 63) \<le> low \<and> high \<le> 2 ^ 63)"

definition randint :: "rng \<Rightarrow> int \<Rightarrow> int \<Rightarrow> int \<Rightarrow> error + (int list \<times> rng)" where
  "randint g low high n =
     (if n < 0 then Inl ValueError
      else if n = 0 then Inr ([], g)
      else if \<not> int64_range low high then Inl ValueError
      else if high \<le> low then Inl ValueError
      else Inr (map (\<lambda>i. low + int (g i mod nat (high - low))) [0..<nat n],
                (\<lambda>i. g (i + nat n))))"

subsection \<open>Python dictionaries\<close>

text \<open>
  A \<open>dict\<close> keeps its keys in insertion order and \<open>items()\<close> iterates in that order: it is
  an association list with distinct keys, \<open>d[k] = v\<close> is \<^const>\<open>AList.update\<close> and a lookup is
  \<^const>\<open>map_of\<close>.
\<close>

type_synonym 'v dict = "(string \<times> 'v) list"

definition wf_dict :: "'v dict \<Rightarrow> bool" where
  "wf_dict d = distinct (map fst d)"

text \<open>\<open>x or y\<close> on an optional integer argument: \<open>None\<close> and \<open>0\<close> are both falsy.\<close>

fun py_or :: "int option \<Rightarrow> int \<Rightarrow> int" where
  "py_or None d = d"
| "py_or (Some v) d = (if v = 0 then d else v)"

subsection \<open>DataBuffer\<close>

record 'a DataBuffer =
  n_copys :: int
  batch_size :: int
  buffer_size :: int
  time_step :: int
  max_horizon :: int
  buffer :: "'a ndarray dict dict"
  horizon_length :: int
  pointer :: int

text \<open>\<open>__init__\<close>: the floor division raises when \<open>n_copys\<close> is 0.\<close>

definition init :: "int \<Rightarrow> int \<Rightarrow> int \<Rightarrow> int \<Rightarrow> error + 'a DataBuffer" where
  "init nc bs bsz ts =
     (if nc = 0 then Inl ZeroDivisionError
      else Inr \<lparr>n_copys = nc, batch_size = bs, buffer_size = bsz, time_step = ts,
                max_horizon = bsz div nc, buffer = [], horizon_length = 0, pointer = 0\<rparr>)"

text \<open>\<open>can_sample\<close>, line 118.\<close>

definition can_sample :: "'a DataBuffer \<Rightarrow> bool" where
  "can_sample b = ((horizon_length b - time_step b) * n_copys b \<ge> batch_size b)"

text \<open>
  \<open>add\<close>, lines 66 to 78. The argument is the dictionary \<open>data\<close> with every value already
  flattened by \<open>nested_dict()\<close> (class \<open>Data\<close> of rls.common.specs) into its named arrays;
  the assertion of line 67 holds by the type of the argument.
  The loops write into the buffer as they go, so an exception leaves behind whatever was
  written before it: a result \<open>Inl (e, s)\<close> is the exception \<open>e\<close> together with the
  state \<open>s\<close> at the moment it was raised.

  The inner loop, lines 71 to 75, over the fields of one key; \<open>fs\<close> is \<open>self._buffer[k]\<close>.
\<close>

fun add_fields ::
  "(dtype \<Rightarrow> dtype \<Rightarrow> 'a \<Rightarrow> 'a) \<Rightarrow> int \<Rightarrow> int \<Rightarrow> 'a ndarray dict \<Rightarrow> 'a ndarray dict
     \<Rightarrow> (error \<times> 'a ndarray dict) + 'a ndarray dict" where
  "add_fields cast mh p fs [] = Inr fs"
| "add_fields cast mh p fs ((k', v') # rest) =
     (case map_of fs k' of
        None \<Rightarrow>
          (case np_empty (mh # map int (shape v')) (dtype v') of
             Inl e \<Rightarrow> Inl (e, fs)
           | Inr a \<Rightarrow>
               (case setitem cast a p v' of
                  Inl e \<Rightarrow> Inl (e, AList.update k' a fs)
                | Inr a' \<Rightarrow> add_fields cast mh p (AList.update k' a' fs) rest))
      | Some a \<Rightarrow>
          (case setitem cast a p v' of
             Inl e \<Rightarrow> Inl (e, fs)
           | Inr a' \<Rightarrow> add_fields cast mh p (AList.update k' a' fs) rest))"

text \<open>The outer loop, lines 68 to 75, over the keys of \<open>data\<close>.\<close>

fun add_keys ::
  "(dtype \<Rightarrow> dtype \<Rightarrow> 'a \<Rightarrow> 'a) \<Rightarrow> int \<Rightarrow> int \<Rightarrow> 'a ndarray dict dict \<Rightarrow> 'a ndarray dict dict
     \<Rightarrow> (error \<times> 'a ndarray dict dict) + 'a ndarray dict dict" where
  "add_keys cast mh p buf [] = Inr buf"
| "add_keys cast mh p buf ((k, v) # rest) =
     (let buf1 = (case map_of buf k of None \<Rightarrow> AList.update k [] buf | Some fs \<Rightarrow> buf);
          fs = (case map_of buf k of None \<Rightarrow> [] | Some fs \<Rightarrow> fs)
      in case add_fields cast mh p fs v of
           Inl (e, fs') \<Rightarrow> Inl (e, AList.update k fs' buf1)
         | Inr fs' \<Rightarrow> add_keys cast mh p (AList.update k fs' buf1) rest)"

text \<open>
  The whole method: after the loops, lines 77 and 78 advance the pointer and the fill
  counter. The remainder raises when \<open>max_horizon\<close> is 0.
\<close>

definition add ::
  "(dtype \<Rightarrow> dtype \<Rightarrow> 'a \<Rightarrow> 'a) \<Rightarrow> 'a DataBuffer \<Rightarrow> 'a ndarray dict dict
     \<Rightarrow> (error \<times> 'a DataBuffer) + 'a DataBuffer" where
  "add cast b data =
     (case add_keys cast (max_horizon b) (pointer b) (buffer b) data of
        Inl (e, buf) \<Rightarrow> Inl (e, b\<lparr>buffer := buf\<rparr>)
      | Inr buf \<Rightarrow>
          (if max_horizon b = 0 then Inl (ZeroDivisionError, b\<lparr>buffer := buf\<rparr>)
           else Inr (b\<lparr>buffer := buf,
                       pointer := (pointer b + 1) mod max_horizon b,
                       horizon_length := min (horizon_length b + 1) (max_horizon b)\<rparr>)))"

text \<open>A run of \<open>add\<close> calls; it stops at the first exception.\<close>

fun adds ::
  "(dtype \<Rightarrow> dtype \<Rightarrow> 'a \<Rightarrow> 'a) \<Rightarrow> 'a DataBuffer \<Rightarrow> 'a ndarray dict dict list
     \<Rightarrow> (error \<times> 'a DataBuffer) + 'a DataBuffer" where
  "adds cast b [] = Inr b"
| "adds cast b (d # ds) =
     (case add cast b d of Inl r \<Rightarrow> Inl r | Inr b' \<Rightarrow> adds cast b' ds)"

text \<open>
  \<open>sample\<close>, lines 80 to 102. Lines 81 to 96 compute the index arrays: the effective
  \<open>B\<close> and \<open>T\<close>, the assertion, the bounds of the start indices, the draws \<open>x\<close> and \<open>y\<close>, and
  \<open>xs\<close>, whose row \<open>t\<close> is \<open>(t + x) % self._horizon_length\<close>. A row exists only when \<open>T\<close>
  is at least 1, and then the assertion has made the fill counter positive, where \<open>%\<close> and
  \<open>mod\<close> agree. The draws \<open>x\<close> are returned next to \<open>sample_idxs = (xs, y)\<close> so that
  theorems can speak about them.
\<close>

definition sample_idxs ::
  "'a DataBuffer \<Rightarrow> rng \<Rightarrow> int option \<Rightarrow> int option
     \<Rightarrow> (error \<times> rng) + ((int list \<times> int list list \<times> int list) \<times> rng)" where
  "sample_idxs b g batchsize timestep =
     (let B = py_or batchsize (batch_size b);
          T = py_or timestep (time_step b)
      in if \<not> T \<le> horizon_length b then Inl (AssertionError, g)
         else
           let start = (if horizon_length b = max_horizon b
                        then pointer b - max_horizon b else 0);
               end' = pointer b - T + 1
           in case randint g start end' B of
                Inl e \<Rightarrow> Inl (e, g)
              | Inr (x, g1) \<Rightarrow>
                  (case randint g1 0 (n_copys b) B of
                     Inl e \<Rightarrow> Inl (e, g1)
                   | Inr (y, g2) \<Rightarrow>
                       Inr ((x,
                             map (\<lambda>t. map (\<lambda>xb. (int t + xb) mod horizon_length b) x)
                               [0..<nat T],
                             y), g2)))"

text \<open>
  Lines 97 to 101: every array of every key is indexed with the same \<open>sample_idxs\<close>. The
  inner dictionary is the comprehension of line 100, the outer one is \<open>samples\<close>.
  \<open>Data.from_nested_dict\<close> (rls.common.specs) rebuilds the record from the dictionary; the
  model returns the dictionary.
\<close>

fun sample_fields ::
  "int list list \<times> int list \<Rightarrow> 'a ndarray dict \<Rightarrow> 'a ndarray dict \<Rightarrow> error + 'a ndarray dict" where
  "sample_fields idx [] acc = Inr acc"
| "sample_fields idx ((k', v') # rest) acc =
     (case getitem v' idx of
        Inl e \<Rightarrow> Inl e
      | Inr r \<Rightarrow> sample_fields idx rest (AList.update k' r acc))"

fun sample_keys ::
  "int list list \<times> int list \<Rightarrow> 'a ndarray dict dict \<Rightarrow> 'a ndarray dict dict
     \<Rightarrow> error + 'a ndarray dict dict" where
  "sample_keys idx [] samples = Inr samples"
| "sample_keys idx ((k, v) # rest) samples =
     (case sample_fields idx v [] of
        Inl e \<Rightarrow> Inl e
      | Inr r \<Rightarrow> sample_keys idx rest (AList.update k r samples))"

text \<open>
  The whole method. It returns the buffer and the random source next to the samples (or
  the exception), so that what a call does to either can be stated.
\<close>

definition sample ::
  "'a DataBuffer \<Rightarrow> rng \<Rightarrow> int option \<Rightarrow> int option
     \<Rightarrow> (error \<times> 'a DataBuffer \<times> rng) + ('a ndarray dict dict \<times> 'a DataBuffer \<times> rng)" where
  "sample b g batchsize timestep =
     (case sample_idxs b g batchsize timestep of
        Inl (e, g') \<Rightarrow> Inl (e, b, g')
      | Inr ((x, idx), g') \<Rightarrow>
          (case sample_keys idx (buffer b) [] of
             Inl e \<Rightarrow> Inl (e, b, g')
           | Inr samples \<Rightarrow> Inr (samples, b, g')))"

subsection \<open>Notions used by the theorems\<close>

text \<open>The buffer a \<open>sample\<close> call leaves behind, whether it returned or raised.\<close>

definition state_after :: "(error \<times> 's \<times> rng) + ('r \<times> 's \<times> rng) \<Rightarrow> 's" where
  "state_after r = (case r of Inl (e, s, g) \<Rightarrow> s | Inr (x, s, g) \<Rightarrow> s)"

text \<open>A buffer that has seen one \<open>add\<close> of nothing, used as a concrete input below.\<close>

definition one_step_buffer :: "int DataBuffer" where
  "one_step_buffer =
     \<lparr>n_copys = 2, batch_size = 4, buffer_size = 8, time_step = 2, max_horizon = 4,
      buffer = [], horizon_length = 1, pointer = 1\<rparr>"

text \<open>
  \<open>self._buffer[k]\<close> when the key is there and the empty dictionary otherwise, and
  \<open>self._buffer[k][f]\<close> as an optional value.
\<close>

definition fields_of :: "'v dict dict \<Rightarrow> string \<Rightarrow> 'v dict" where
  "fields_of buf k = (case map_of buf k of None \<Rightarrow> [] | Some fs \<Rightarrow> fs)"

definition field_of :: "'v dict dict \<Rightarrow> string \<Rightarrow> string \<Rightarrow> 'v option" where
  "field_of buf k f = map_of (fields_of buf k) f"

text \<open>
  The elements of the sub-arrays \<open>a[i]\<close> (one time slot) and \<open>a[i, c]\<close> (one time slot of
  one copy), in C order.
\<close>

definition slot :: "'a ndarray \<Rightarrow> nat \<Rightarrow> 'a option list" where
  "slot a i = block (elems a) (prod_list (tl (shape a))) i"

definition cell :: "'a ndarray \<Rightarrow> nat \<Rightarrow> nat \<Rightarrow> 'a option list" where
  "cell a i c =
     (case shape a of
        n0 # n1 # dims \<Rightarrow> block (elems a) (prod_list dims) (i * n1 + c)
      | _ \<Rightarrow> [])"

text \<open>
  The array that line 75 writes into: the stored one, or the one lines 73 and 74 have
  just allocated.
\<close>

definition field_store :: "int \<Rightarrow> 'a ndarray dict \<Rightarrow> string \<Rightarrow> 'a ndarray \<Rightarrow> error + 'a ndarray" where
  "field_store mh fs f v =
     (case map_of fs f of
        None \<Rightarrow> np_empty (mh # map int (shape v)) (dtype v)
      | Some a \<Rightarrow> Inr a)"

text \<open>
  What the types of the Python program guarantee and the lists of the model do not: a
  numpy array has as many elements as its shape says, a dictionary has each key once, and
  every stored array was allocated with \<open>max_horizon\<close> time slots.
\<close>

definition ring_array :: "nat \<Rightarrow> 'a ndarray \<Rightarrow> bool" where
  "ring_array n a = (wf_array a \<and> (case shape a of [] \<Rightarrow> False | m # sl \<Rightarrow> m = n))"

definition wf_fields :: "nat \<Rightarrow> 'a ndarray dict \<Rightarrow> bool" where
  "wf_fields n fs = (wf_dict fs \<and> list_all (ring_array n) (map snd fs))"

definition wf_store :: "nat \<Rightarrow> 'a ndarray dict dict \<Rightarrow> bool" where
  "wf_store n buf = (wf_dict buf \<and> list_all (wf_fields n) (map snd buf))"

definition wf_record :: "'a ndarray dict \<Rightarrow> bool" where
  "wf_record fs = (wf_dict fs \<and> list_all wf_array (map snd fs))"

definition wf_data :: "'a ndarray dict dict \<Rightarrow> bool" where
  "wf_data d = (wf_dict d \<and> list_all wf_record (map snd d))"

definition wf_buffer :: "'a DataBuffer \<Rightarrow> bool" where
  "wf_buffer b = (0 \<le> max_horizon b \<and> wf_store (nat (max_horizon b)) (buffer b))"

text \<open>
  The bookkeeping of the ring as \<open>__init__\<close> sets it up and \<open>add\<close> keeps it: the pointer equals
  the fill counter until the ring is full and stays inside the ring afterwards.
\<close>

definition ring_inv :: "'a DataBuffer \<Rightarrow> bool" where
  "ring_inv b =
     (0 \<le> pointer b \<and> pointer b \<le> horizon_length b \<and> horizon_length b \<le> max_horizon b \<and>
      (pointer b = horizon_length b \<or> horizon_length b = max_horizon b) \<and>
      (pointer b < max_horizon b \<or> max_horizon b = 0))"

text \<open>
  Every stored array has a second axis, and it is at least \<open>n_copys\<close> long: the arrays
  handed to \<open>add\<close> are shaped \<open>[n_copys, *field_dims]\<close>.
\<close>

definition copy_axis :: "int \<Rightarrow> 'a ndarray \<Rightarrow> bool" where
  "copy_axis nc a = (case shape a of n0 # n1 # dims \<Rightarrow> nc \<le> int n1 | _ \<Rightarrow> False)"

definition copies_ok :: "'a DataBuffer \<Rightarrow> bool" where
  "copies_ok b = list_all (\<lambda>fs. list_all (copy_axis (n_copys b)) (map snd fs)) (map snd (buffer b))"

text \<open>
  Consistent shapes: every array of the call whose field is already allocated has the
  shape of one time slot of the allocation.
\<close>

definition fits_fields :: "'a ndarray dict \<Rightarrow> 'a ndarray dict \<Rightarrow> bool" where
  "fits_fields fs vs =
     list_all (\<lambda>(f, v). case map_of fs f of None \<Rightarrow> True | Some a \<Rightarrow> tl (shape a) = shape v) vs"

definition fits :: "'a ndarray dict dict \<Rightarrow> 'a ndarray dict dict \<Rightarrow> bool" where
  "fits buf data = list_all (\<lambda>(k, vs). fits_fields (fields_of buf k) vs) data"

text \<open>
  A run of calls with consistent shapes: a schema gives each field of each key its shape,
  every array of every call has the shape of its field, and so has every time slot of
  every stored array.
\<close>

definition conforms :: "(string \<Rightarrow> string \<Rightarrow> nat list option) \<Rightarrow> 'a ndarray dict dict \<Rightarrow> bool" where
  "conforms sch d = list_all (\<lambda>(k, vs). list_all (\<lambda>(f, v). sch k f = Some (shape v)) vs) d"

definition stored_conforms ::
  "(string \<Rightarrow> string \<Rightarrow> nat list option) \<Rightarrow> 'a ndarray dict dict \<Rightarrow> bool" where
  "stored_conforms sch buf =
     list_all (\<lambda>(k, fs). list_all (\<lambda>(f, a). sch k f = Some (tl (shape a))) fs) buf"

definition marked_schema :: "string \<Rightarrow> string \<Rightarrow> nat list option" where
  "marked_schema k f =
     (if k = ''agent_0'' \<and> f = ''obs'' then Some [2, 1]
      else if k = ''agent_0'' \<and> f = ''reward'' then Some [2]
      else if k = ''global'' \<and> f = ''begin_mask'' then Some [2, 1]
      else None)"

text \<open>
  The concrete scenario of the specification: two copies, batches of four, a buffer of
  eight, windows of two, hence four time slots. Call number \<open>t\<close> stores, for copy \<open>c\<close>,
  the marker \<open>10 * t + c\<close> in every field; no conversion takes place.
\<close>

definition no_cast :: "dtype \<Rightarrow> dtype \<Rightarrow> int \<Rightarrow> int" where
  "no_cast src dst x = x"

definition marked :: "int \<Rightarrow> int ndarray dict dict" where
  "marked t =
     [(''agent_0'',
        [(''obs'', \<lparr>shape = [2, 1], dtype = Int64, elems = [Some (10 * t), Some (10 * t + 1)]\<rparr>),
         (''reward'', \<lparr>shape = [2], dtype = Int64, elems = [Some (10 * t), Some (10 * t + 1)]\<rparr>)]),
      (''global'',
        [(''begin_mask'', \<lparr>shape = [2, 1], dtype = Int64, elems = [Some (10 * t), Some (10 * t + 1)]\<rparr>)])]"

definition fresh_buffer :: "int DataBuffer" where
  "fresh_buffer =
     \<lparr>n_copys = 2, batch_size = 4, buffer_size = 8, time_step = 2, max_horizon = 4,
      buffer = [], horizon_length = 0, pointer = 0\<rparr>"

text \<open>The same buffer with the elements \<open>es\<close> in each of its three arrays.\<close>

definition filled :: "int option list \<Rightarrow> int \<Rightarrow> int \<Rightarrow> int DataBuffer" where
  "filled es h p =
     \<lparr>n_copys = 2, batch_size = 4, buffer_size = 8, time_step = 2, max_horizon = 4,
      buffer =
        [(''agent_0'',
           [(''obs'', \<lparr>shape = [4, 2, 1], dtype = Int64, elems = es\<rparr>),
            (''reward'', \<lparr>shape = [4, 2], dtype = Int64, elems = es\<rparr>)]),
         (''global'',
           [(''begin_mask'', \<lparr>shape = [4, 2, 1], dtype = Int64, elems = es\<rparr>)])],
      horizon_length = h, pointer = p\<rparr>"

definition full_buffer :: "int DataBuffer" where
  "full_buffer =
     filled [Some 0, Some 1, Some 10, Some 11, Some 20, Some 21, Some 30, Some 31] 4 0"

text \<open>
  The scenario after its first \<open>add\<close>, and further calls for it: one whose \<open>obs\<close> has
  another dtype and another shape than the allocation, with the state it leaves, and one
  whose second field cannot be stored.
\<close>

definition first_buffer :: "int DataBuffer" where
  "first_buffer = filled [Some 0, Some 1, None, None, None, None, None, None] 1 1"



definition half_bad :: "int ndarray dict dict" where
  "half_bad =
     [(''agent_0'',
        [(''obs'', \<lparr>shape = [2, 1], dtype = Int64, elems = [Some 10, Some 11]\<rparr>),
         (''reward'', \<lparr>shape = [3], dtype = Int64, elems = [Some 10, Some 11, Some 12]\<rparr>)])]"

text \<open>
  The scenario after its first \<open>add\<close> with, in addition, the markers of call 1 in slot 1 of
  \<open>obs\<close> only; \<open>h\<close> and \<open>p\<close> are the fill counter and the pointer.
\<close>

definition partly_written :: "int \<Rightarrow> int \<Rightarrow> int DataBuffer" where
  "partly_written h p =
     \<lparr>n_copys = 2, batch_size = 4, buffer_size = 8, time_step = 2, max_horizon = 4,
      buffer =
        [(''agent_0'',
           [(''obs'', \<lparr>shape = [4, 2, 1], dtype = Int64,
                      elems = [Some 0, Some 1, Some 10, Some 11, None, None, None, None]\<rparr>),
            (''reward'', \<lparr>shape = [4, 2], dtype = Int64,
                         elems = [Some 0, Some 1, None, None, None, None, None, None]\<rparr>)]),
         (''global'',
           [(''begin_mask'', \<lparr>shape = [4, 2, 1], dtype = Int64,
                             elems = [Some 0, Some 1, None, None, None, None, None, None]\<rparr>)])],
      horizon_length = h, pointer = p\<rparr>"

text \<open>
  A second call for the scenario that brings a field the first call did not have, and the
  state it leaves.
\<close>

definition late :: "int ndarray dict dict" where
  "late = [(''agent_0'', [(''done'', \<lparr>shape = [2], dtype = Int64, elems = [Some 10, Some 11]\<rparr>)])]"

definition late_buffer :: "int DataBuffer" where
  "late_buffer =
     \<lparr>n_copys = 2, batch_size = 4, buffer_size = 8, time_step = 2, max_horizon = 4,
      buffer =
        [(''agent_0'',
           [(''obs'', \<lparr>shape = [4, 2, 1], dtype = Int64,
                      elems = [Some 0, Some 1, None, None, None, None, None, None]\<rparr>),
            (''reward'', \<lparr>shape = [4, 2], dtype = Int64,
                         elems = [Some 0, Some 1, None, None, None, None, None, None]\<rparr>),
            (''done'', \<lparr>shape = [4, 2], dtype = Int64,
                       elems = [None, None, Some 10, Some 11, None, None, None, None]\<rparr>)]),
         (''global'',
           [(''begin_mask'', \<lparr>shape = [4, 2, 1], dtype = Int64,
                             elems = [Some 0, Some 1, None, None, None, None, None, None]\<rparr>)])],
      horizon_length = 2, pointer = 2\<rparr>"

section \<open>Blocks of elements, broadcasting and slot assignment\<close>

lemma length_block: "(i + 1) * sz \<le> length es \<Longrightarrow> length (block es sz i) = sz"
  by (simp add: block_def)

lemma length_put_block:
  "(i + 1) * sz \<le> length es \<Longrightarrow> length vs = sz \<Longrightarrow> length (put_block es sz i vs) = length es"
  by (simp add: put_block_def)

lemma block_put_block_same:
  "(i + 1) * sz \<le> length es \<Longrightarrow> length vs = sz \<Longrightarrow> block (put_block es sz i vs) sz i = vs"
  by (simp add: put_block_def block_def)

lemma block_put_block_other:
  assumes "(i + 1) * sz \<le> length es" "length vs = sz" "j \<noteq> i"
  shows "block (put_block es sz i vs) sz j = block es sz j"
proof (cases "j < i")
  case True
  then have "(j + 1) * sz \<le> i * sz"
    by (metis Suc_eq_plus1 Suc_leI mult_le_mono1)
  then have "j * sz + sz \<le> i * sz" by simp
  with assms show ?thesis
    by (simp add: put_block_def block_def take_drop min_def)
next
  case False
  with assms have "i < j" by simp
  then have "(i + 1) * sz \<le> j * sz"
    by (metis Suc_eq_plus1 Suc_leI mult_le_mono1)
  then obtain k where k: "j * sz = (i + 1) * sz + k"
    using le_Suc_ex by blast
  have "drop (j * sz) (put_block es sz i vs) = drop (j * sz) es"
    using assms k by (simp add: put_block_def drop_take add.commute)
  then show ?thesis
    by (simp add: block_def)
qed

lemma norm_index_less: "norm_index p n = Inr i \<Longrightarrow> i < n"
  by (auto simp: norm_index_def split: if_splits)

lemma norm_index_nonneg: "0 \<le> p \<Longrightarrow> p < int n \<Longrightarrow> norm_index p n = Inr (nat p)"
  by (simp add: norm_index_def)



lemma length_concat_const:
  "(\<And>x. x \<in> set xs \<Longrightarrow> length (f x) = n) \<Longrightarrow> length (concat (map f xs)) = length xs * n"
  by (induction xs) auto

lemma length_bcast:
  "compatible s d \<Longrightarrow> length es = prod_list s \<Longrightarrow> length (bcast s d es) = prod_list d"
proof (induction s d arbitrary: es rule: compatible.induct)
  case 1
  then show ?case by simp
next
  case (2 s ss d ds)
  show ?case
  proof (cases "s = d")
    case True
    have "length (bcast ss ds (block es (prod_list ss) i)) = prod_list ds" if "i \<in> set [0..<d]" for i
    proof (rule "2.IH")
      show "compatible ss ds" using "2.prems" by simp
      have "(i + 1) * prod_list ss \<le> d * prod_list ss"
        using that by (metis Suc_eq_plus1 Suc_leI atLeastLessThan_iff mult_le_mono1 set_upt)
      then show "length (block es (prod_list ss) i) = prod_list ss"
        using "2.prems" True by (simp add: length_block)
    qed
    then have "length (concat (map (\<lambda>i. bcast ss ds (block es (prod_list ss) i)) [0..<d]))
                 = length [0..<d] * prod_list ds"
      by (rule length_concat_const)
    with True show ?thesis by simp
  next
    case False
    with "2.prems" have s1: "s = 1" and c: "compatible ss ds" by auto
    have "length (bcast ss ds es) = prod_list ds"
      using "2.prems" s1 c by (intro "2.IH") auto
    then show ?thesis
      using False by (simp add: length_concat sum_list_replicate)
  qed
qed simp_all

lemma prod_list_strip_ones: "prod_list (strip_ones n s) = prod_list s"
  by (induction n s rule: strip_ones.induct) auto

lemma prod_list_pad_ones: "prod_list (pad_ones n s) = prod_list s"
  by (simp add: pad_ones_def)

lemma broadcastable_compatible:
  "broadcastable src dst \<Longrightarrow>
     compatible (pad_ones (length dst) (strip_ones (length dst) src)) dst"
  by (cases "dst = []") (simp_all add: broadcastable_def pad_ones_def)

lemma length_broadcast_to:
  assumes "broadcast_to src dst es = Some vs" "length es = prod_list src"
  shows "length vs = prod_list dst"
proof -
  let ?s = "pad_ones (length dst) (strip_ones (length dst) src)"
  from assms(1) have b: "broadcastable src dst" and vs: "vs = bcast ?s dst es"
    by (auto simp: broadcast_to_def split: if_splits)
  have "compatible ?s dst"
    using b by (rule broadcastable_compatible)
  moreover have "length es = prod_list ?s"
    using assms(2) by (simp add: prod_list_pad_ones prod_list_strip_ones)
  ultimately show ?thesis
    unfolding vs by (rule length_bcast)
qed

lemma strip_ones_same: "strip_ones (length s) s = s"
  by (cases s) auto

lemma compatible_refl: "compatible s s"
  by (induction s) auto

lemma broadcastable_refl: "broadcastable s s"
  by (simp add: broadcastable_def strip_ones_same pad_ones_def compatible_refl)






lemma setitem_shape:
  "setitem cast a p v = Inr a' \<Longrightarrow> shape a' = shape a \<and> dtype a' = dtype a"
  by (auto simp: setitem_def split: list.splits sum.splits option.splits)

lemma setitem_Inr:
  assumes "setitem cast a p v = Inr a'"
  obtains n sl i vs where "shape a = n # sl" "norm_index p n = Inr i"
    "broadcast_to (shape v) sl (elems v) = Some vs"
    "a' = a\<lparr>elems := put_block (elems a) (prod_list sl) i
                        (map (map_option (cast (dtype v) (dtype a))) vs)\<rparr>"
  using assms by (auto simp: setitem_def split: list.splits sum.splits option.splits)

lemma ring_arrayD:
  assumes "ring_array n a"
  obtains sl where "shape a = n # sl" "length (elems a) = n * prod_list sl"
  using assms by (auto simp: ring_array_def wf_array_def split: list.splits)

lemma slot_bound: "i < n \<Longrightarrow> length es = n * sz \<Longrightarrow> (i + 1) * sz \<le> length es"
  by (metis Suc_eq_plus1 Suc_leI mult_le_mono1)

lemma setitem_ring:
  assumes "ring_array n a" "wf_array v" "setitem cast a p v = Inr a'"
  shows "ring_array n a'"
proof -
  from assms(1) obtain sl where sh: "shape a = n # sl" and len: "length (elems a) = n * prod_list sl"
    by (rule ring_arrayD)
  from assms(3) sh obtain i vs where i: "norm_index p n = Inr i"
    and vs: "broadcast_to (shape v) sl (elems v) = Some vs"
    and a': "a' = a\<lparr>elems := put_block (elems a) (prod_list sl) i
                        (map (map_option (cast (dtype v) (dtype a))) vs)\<rparr>"
    by (auto elim!: setitem_Inr)
  have "length vs = prod_list sl"
    using vs assms(2) by (simp add: length_broadcast_to wf_array_def)
  moreover have "(i + 1) * prod_list sl \<le> length (elems a)"
    using i len by (intro slot_bound norm_index_less)
  ultimately have "length (elems a') = length (elems a)"
    by (simp add: a' length_put_block)
  then show ?thesis
    using assms(1) by (simp add: ring_array_def wf_array_def a')
qed

lemma setitem_slot:
  assumes "ring_array n a" "wf_array v" "setitem cast a p v = Inr a'"
  shows "\<exists>i vs. norm_index p n = Inr i \<and>
           broadcast_to (shape v) (tl (shape a)) (elems v) = Some vs \<and>
           slot a' i = map (map_option (cast (dtype v) (dtype a))) vs \<and>
           (\<forall>j. j \<noteq> i \<longrightarrow> slot a' j = slot a j)"
proof -
  from assms(1) obtain sl where sh: "shape a = n # sl" and len: "length (elems a) = n * prod_list sl"
    by (rule ring_arrayD)
  from assms(3) sh obtain i vs where i: "norm_index p n = Inr i"
    and vs: "broadcast_to (shape v) sl (elems v) = Some vs"
    and a': "a' = a\<lparr>elems := put_block (elems a) (prod_list sl) i
                        (map (map_option (cast (dtype v) (dtype a))) vs)\<rparr>"
    by (auto elim!: setitem_Inr)
  have lv: "length (map (map_option (cast (dtype v) (dtype a))) vs) = prod_list sl"
    using vs assms(2) by (simp add: length_broadcast_to wf_array_def)
  have bd: "(i + 1) * prod_list sl \<le> length (elems a)"
    using i len by (intro slot_bound norm_index_less)
  have "slot a' i = map (map_option (cast (dtype v) (dtype a))) vs"
    using block_put_block_same [OF bd lv] by (simp add: slot_def a' sh)
  moreover have "slot a' j = slot a j" if "j \<noteq> i" for j
    using block_put_block_other [OF bd lv that] by (simp add: slot_def a' sh)
  ultimately show ?thesis
    using i vs sh by auto
qed


lemma np_empty_ring:
  "0 \<le> mh \<Longrightarrow> np_empty (mh # map int s) dt =
     Inr \<lparr>shape = nat mh # s, dtype = dt, elems = replicate (nat mh * prod_list s) None\<rparr>"
  by (simp add: np_empty_def list_ex_iff comp_def)

lemma np_empty_negative: "mh < 0 \<Longrightarrow> np_empty (mh # s) dt = Inl ValueError"
  by (simp add: np_empty_def)

lemma field_store_ring:
  assumes "wf_fields (nat mh) fs" "0 \<le> mh" "field_store mh fs f v = Inr a"
  shows "ring_array (nat mh) a"
proof (cases "map_of fs f")
  case None
  with assms(2,3) show ?thesis
    by (auto simp: field_store_def np_empty_ring ring_array_def wf_array_def)
next
  case (Some a0)
  then have "a0 \<in> snd ` set fs"
    by (metis map_of_SomeD image_eqI snd_conv)
  with assms Some show ?thesis
    by (auto simp: field_store_def wf_fields_def list_all_iff)
qed

lemma wf_fields_update:
  "wf_fields n fs \<Longrightarrow> ring_array n a \<Longrightarrow> wf_fields n (AList.update f a fs)"
  unfolding wf_fields_def wf_dict_def list_all_iff
  by (induction fs) (auto simp: AList.distinct_update AList.dom_update)

section \<open>What the loops of \<open>add\<close> leave in the buffer\<close>

lemma add_fields_step:
  "add_fields cast mh p fs ((f, v) # rest) =
     (case field_store mh fs f v of
        Inl e \<Rightarrow> Inl (e, fs)
      | Inr a \<Rightarrow>
          (case setitem cast a p v of
             Inl e \<Rightarrow> Inl (e, if map_of fs f = None then AList.update f a fs else fs)
           | Inr a' \<Rightarrow> add_fields cast mh p (AList.update f a' fs) rest))"
  by (cases "map_of fs f") (simp_all add: field_store_def split: sum.splits)

lemma add_fields_lookup:
  assumes "add_fields cast mh p fs vs = Inr fs'" "distinct (map fst vs)"
  shows "(map_of vs f = None \<longrightarrow> map_of fs' f = map_of fs f) \<and>
         (\<forall>v. map_of vs f = Some v \<longrightarrow>
            (\<exists>a a'. field_store mh fs f v = Inr a \<and> setitem cast a p v = Inr a' \<and>
                    map_of fs' f = Some a'))"
  using assms
proof (induction vs arbitrary: fs)
  case Nil
  then show ?case by simp
next
  case (Cons kv rest)
  obtain k v where kv: "kv = (k, v)" by (cases kv)
  from Cons.prems obtain a a' where fsk: "field_store mh fs k v = Inr a"
    and st: "setitem cast a p v = Inr a'"
    and rec: "add_fields cast mh p (AList.update k a' fs) rest = Inr fs'"
    unfolding kv add_fields_step by (auto split: sum.splits)
  from Cons.prems have d: "distinct (map fst rest)" and nk: "k \<notin> fst ` set rest"
    by (auto simp: kv)
  note IH = Cons.IH [OF rec d]
  show ?case
  proof (cases "f = k")
    case True
    have "map_of rest k = None"
      using nk by (simp add: map_of_eq_None_iff)
    with IH True have "map_of fs' k = Some a'"
      by (simp add: AList.update_conv')
    with True fsk st show ?thesis
      by (simp add: kv)
  next
    case False
    have "field_store mh (AList.update k a' fs) f w = field_store mh fs f w" for w
      using False by (simp add: field_store_def AList.update_conv')
    with IH False show ?thesis
      by (simp add: kv AList.update_conv')
  qed
qed

lemma add_fields_frame:
  assumes "add_fields cast mh p fs vs = r" "f \<notin> fst ` set vs"
    and "r = Inr fs' \<or> r = Inl (e, fs')"
  shows "map_of fs' f = map_of fs f"
  using assms
proof (induction vs arbitrary: fs)
  case Nil
  then show ?case by auto
next
  case (Cons kv rest)
  obtain k v where kv: "kv = (k, v)" by (cases kv)
  with Cons.prems have ne: "f \<noteq> k" and nf: "f \<notin> fst ` set rest" by auto
  show ?case
  proof (cases "field_store mh fs k v")
    case (Inl e')
    with Cons.prems show ?thesis
      unfolding kv add_fields_step by auto
  next
    case (Inr a)
    show ?thesis
    proof (cases "setitem cast a p v")
      case (Inl e')
      with Inr Cons.prems ne show ?thesis
        unfolding kv add_fields_step by (auto simp: AList.update_conv' split: if_splits)
    next
      case a': (Inr a')
      with Inr Cons.prems have "add_fields cast mh p (AList.update k a' fs) rest = r"
        unfolding kv add_fields_step by simp
      from Cons.IH [OF this nf Cons.prems(3)] ne show ?thesis
        by (simp add: AList.update_conv')
    qed
  qed
qed

lemma add_fields_wf:
  assumes "add_fields cast mh p fs vs = r" "r = Inr fs' \<or> r = Inl (e, fs')"
    and "wf_fields (nat mh) fs" "list_all wf_array (map snd vs)" "0 \<le> mh"
  shows "wf_fields (nat mh) fs'"
  using assms
proof (induction vs arbitrary: fs)
  case Nil
  then show ?case by auto
next
  case (Cons kv rest)
  obtain k v where kv: "kv = (k, v)" by (cases kv)
  from Cons.prems have wv: "wf_array v" and wr: "list_all wf_array (map snd rest)"
    by (auto simp: kv)
  show ?case
  proof (cases "field_store mh fs k v")
    case (Inl e')
    with Cons.prems show ?thesis
      unfolding kv add_fields_step by auto
  next
    case (Inr a)
    have ra: "ring_array (nat mh) a"
      using Cons.prems(3,5) Inr by (rule field_store_ring)
    show ?thesis
    proof (cases "setitem cast a p v")
      case (Inl e')
      with Inr Cons.prems ra show ?thesis
        unfolding kv add_fields_step by (auto simp: wf_fields_update split: if_splits)
    next
      case a': (Inr a')
      with Inr Cons.prems have rec: "add_fields cast mh p (AList.update k a' fs) rest = r"
        unfolding kv add_fields_step by simp
      have "ring_array (nat mh) a'"
        using ra wv a' by (rule setitem_ring)
      then have "wf_fields (nat mh) (AList.update k a' fs)"
        using Cons.prems(3) by (simp add: wf_fields_update)
      from Cons.IH [OF rec Cons.prems(2) this wr Cons.prems(5)] show ?thesis .
    qed
  qed
qed

lemma add_keys_step:
  "add_keys cast mh p buf ((k, v) # rest) =
     (case add_fields cast mh p (fields_of buf k) v of
        Inl (e, fs') \<Rightarrow> Inl (e, AList.update k fs' buf)
      | Inr fs' \<Rightarrow> add_keys cast mh p (AList.update k fs' buf) rest)"
  by (cases "map_of buf k") (simp_all add: fields_of_def split: sum.splits)

lemma fields_of_update:
  "fields_of (AList.update k fs buf) k' = (if k' = k then fs else fields_of buf k')"
  by (simp add: fields_of_def AList.update_conv')

lemma add_keys_lookup:
  assumes "add_keys cast mh p buf data = Inr buf'" "distinct (map fst data)"
  shows "(map_of data k = None \<longrightarrow> map_of buf' k = map_of buf k) \<and>
         (\<forall>v. map_of data k = Some v \<longrightarrow>
            (\<exists>fs'. add_fields cast mh p (fields_of buf k) v = Inr fs' \<and>
                   map_of buf' k = Some fs'))"
  using assms
proof (induction data arbitrary: buf)
  case Nil
  then show ?case by simp
next
  case (Cons kv rest)
  obtain k0 v0 where kv: "kv = (k0, v0)" by (cases kv)
  from Cons.prems obtain fs' where af: "add_fields cast mh p (fields_of buf k0) v0 = Inr fs'"
    and rec: "add_keys cast mh p (AList.update k0 fs' buf) rest = Inr buf'"
    unfolding kv add_keys_step by (auto split: sum.splits)
  from Cons.prems have d: "distinct (map fst rest)" and nk: "k0 \<notin> fst ` set rest"
    by (auto simp: kv)
  note IH = Cons.IH [OF rec d]
  show ?case
  proof (cases "k = k0")
    case True
    have "map_of rest k0 = None"
      using nk by (simp add: map_of_eq_None_iff)
    with IH True have "map_of buf' k0 = Some fs'"
      by (simp add: AList.update_conv')
    with True af show ?thesis
      by (simp add: kv)
  next
    case False
    with IH show ?thesis
      by (simp add: kv AList.update_conv' fields_of_update)
  qed
qed

lemma add_keys_frame:
  assumes "add_keys cast mh p buf data = r" "k \<notin> fst ` set data"
    and "r = Inr buf' \<or> r = Inl (e, buf')"
  shows "map_of buf' k = map_of buf k"
  using assms
proof (induction data arbitrary: buf)
  case Nil
  then show ?case by auto
next
  case (Cons kv rest)
  obtain k0 v0 where kv: "kv = (k0, v0)" by (cases kv)
  with Cons.prems have ne: "k \<noteq> k0" and nf: "k \<notin> fst ` set rest" by auto
  show ?case
  proof (cases "add_fields cast mh p (fields_of buf k0) v0")
    case (Inl ef)
    with Cons.prems ne show ?thesis
      unfolding kv add_keys_step by (cases ef) (auto simp: AList.update_conv')
  next
    case (Inr fs')
    with Cons.prems have "add_keys cast mh p (AList.update k0 fs' buf) rest = r"
      unfolding kv add_keys_step by simp
    from Cons.IH [OF this nf Cons.prems(3)] ne show ?thesis
      by (simp add: AList.update_conv')
  qed
qed

lemma wf_fields_Nil: "wf_fields n []"
  by (simp add: wf_fields_def wf_dict_def)

lemma wf_store_fields_of: "wf_store n buf \<Longrightarrow> wf_fields n (fields_of buf k)"
proof (cases "map_of buf k")
  case None
  then show ?thesis by (simp add: fields_of_def wf_fields_Nil)
next
  case (Some fs)
  assume "wf_store n buf"
  moreover have "fs \<in> snd ` set buf"
    using Some by (metis map_of_SomeD image_eqI snd_conv)
  ultimately show ?thesis
    using Some by (auto simp: fields_of_def wf_store_def list_all_iff)
qed

lemma wf_store_update:
  "wf_store n buf \<Longrightarrow> wf_fields n fs \<Longrightarrow> wf_store n (AList.update k fs buf)"
  unfolding wf_store_def wf_dict_def list_all_iff
  by (induction buf) (auto simp: AList.distinct_update AList.dom_update)

lemma add_keys_wf:
  assumes "add_keys cast mh p buf data = r" "r = Inr buf' \<or> r = Inl (e, buf')"
    and "wf_store (nat mh) buf" "list_all wf_record (map snd data)" "0 \<le> mh"
  shows "wf_store (nat mh) buf'"
  using assms
proof (induction data arbitrary: buf)
  case Nil
  then show ?case by auto
next
  case (Cons kv rest)
  obtain k0 v0 where kv: "kv = (k0, v0)" by (cases kv)
  from Cons.prems(4) have wr: "list_all wf_record (map snd rest)"
    by (simp add: kv)
  from Cons.prems(4) have wv: "list_all wf_array (map snd v0)"
    by (simp add: kv wf_record_def)
  have w0: "wf_fields (nat mh) (fields_of buf k0)"
    using Cons.prems(3) by (rule wf_store_fields_of)
  show ?case
  proof (cases "add_fields cast mh p (fields_of buf k0) v0")
    case (Inl ef)
    obtain e0 fs' where ef: "ef = (e0, fs')" by (cases ef)
    have "wf_fields (nat mh) fs'"
      using Inl [unfolded ef] _ w0 wv Cons.prems(5)
      by (rule add_fields_wf [where e = e0]) simp
    with Inl Cons.prems show ?thesis
      unfolding kv add_keys_step ef by (auto simp: wf_store_update)
  next
    case (Inr fs')
    have "wf_fields (nat mh) fs'"
      using Inr _ w0 wv Cons.prems(5)
      by (rule add_fields_wf) simp
    then have w1: "wf_store (nat mh) (AList.update k0 fs' buf)"
      using Cons.prems(3) by (simp add: wf_store_update)
    from Inr Cons.prems have rec: "add_keys cast mh p (AList.update k0 fs' buf) rest = r"
      unfolding kv add_keys_step by simp
    from Cons.IH [OF rec Cons.prems(2) w1 wr Cons.prems(5)] show ?thesis .
  qed
qed

lemma add_Inr:
  assumes "add cast b data = Inr b'"
  obtains buf where "add_keys cast (max_horizon b) (pointer b) (buffer b) data = Inr buf"
    "max_horizon b \<noteq> 0"
    "b' = b\<lparr>buffer := buf, pointer := (pointer b + 1) mod max_horizon b,
             horizon_length := min (horizon_length b + 1) (max_horizon b)\<rparr>"
  using assms by (auto simp: add_def split: sum.splits if_splits)

lemma add_Inl:
  assumes "add cast b data = Inl (e, b')"
  obtains buf where "b' = b\<lparr>buffer := buf\<rparr>"
    "add_keys cast (max_horizon b) (pointer b) (buffer b) data = Inl (e, buf) \<or>
     add_keys cast (max_horizon b) (pointer b) (buffer b) data = Inr buf"
  using assms by (auto simp: add_def split: sum.splits if_splits)

lemma add_wf:
  assumes "add cast b data = r" "r = Inr b' \<or> r = Inl (e, b')" "wf_buffer b" "wf_data data"
  shows "wf_buffer b'"
proof -
  from assms(3) have mh: "0 \<le> max_horizon b" and ws: "wf_store (nat (max_horizon b)) (buffer b)"
    by (simp_all add: wf_buffer_def)
  from assms(4) have wd: "list_all wf_record (map snd data)"
    by (simp add: wf_data_def)
  from assms(1,2) obtain buf where buf: "buffer b' = buf" "max_horizon b' = max_horizon b"
    and r: "add_keys cast (max_horizon b) (pointer b) (buffer b) data = Inl (e, buf) \<or>
       add_keys cast (max_horizon b) (pointer b) (buffer b) data = Inr buf"
    by (auto elim!: add_Inr add_Inl)
  from r have "wf_store (nat (max_horizon b)) buf"
  proof
    assume "add_keys cast (max_horizon b) (pointer b) (buffer b) data = Inl (e, buf)"
    then show ?thesis
      using _ ws wd mh by (rule add_keys_wf [where e = e]) simp
  next
    assume "add_keys cast (max_horizon b) (pointer b) (buffer b) data = Inr buf"
    then show ?thesis
      using _ ws wd mh by (rule add_keys_wf [where e = e]) simp
  qed
  with mh buf show ?thesis
    by (simp add: wf_buffer_def)
qed

lemma add_field_written:
  assumes "add cast b data = Inr b'" "wf_data data" "field_of data k f = Some v"
  shows "\<exists>a a'. field_store (max_horizon b) (fields_of (buffer b) k) f v = Inr a \<and>
           setitem cast a (pointer b) v = Inr a' \<and> field_of (buffer b') k f = Some a'"
proof -
  from assms(1) obtain buf where ak: "add_keys cast (max_horizon b) (pointer b) (buffer b) data = Inr buf"
    and b': "buffer b' = buf"
    by (auto elim!: add_Inr)
  from assms(3) obtain fs where fs: "map_of data k = Some fs" and fv: "map_of fs f = Some v"
    by (auto simp: field_of_def fields_of_def split: option.splits)
  from assms(2) have dd: "distinct (map fst data)"
    by (simp add: wf_data_def wf_dict_def)
  have "fs \<in> snd ` set data"
    using fs by (metis map_of_SomeD image_eqI snd_conv)
  with assms(2) have df: "distinct (map fst fs)"
    by (auto simp: wf_data_def wf_record_def wf_dict_def list_all_iff)
  from add_keys_lookup [OF ak dd, of k] fs obtain fs'
    where af: "add_fields cast (max_horizon b) (pointer b) (fields_of (buffer b) k) fs = Inr fs'"
      and mb: "map_of buf k = Some fs'"
    by auto
  from add_fields_lookup [OF af df, of f] fv obtain a a'
    where "field_store (max_horizon b) (fields_of (buffer b) k) f v = Inr a"
      "setitem cast a (pointer b) v = Inr a'" "map_of fs' f = Some a'"
    by auto
  with mb b' show ?thesis
    by (auto simp: field_of_def fields_of_def)
qed

section \<open>The scenario, evaluated\<close>

lemma scenario_init: "init 2 4 8 2 = Inr fresh_buffer"
  by (simp add: init_def fresh_buffer_def)

lemma scenario_add_0:
  "add no_cast fresh_buffer (marked 0)
     = Inr (filled [Some 0, Some 1, None, None, None, None, None, None] 1 1)"
  by code_simp

lemma scenario_add_1:
  "add no_cast (filled [Some 0, Some 1, None, None, None, None, None, None] 1 1) (marked 1)
     = Inr (filled [Some 0, Some 1, Some 10, Some 11, None, None, None, None] 2 2)"
  by code_simp

lemma scenario_add_2:
  "add no_cast (filled [Some 0, Some 1, Some 10, Some 11, None, None, None, None] 2 2) (marked 2)
     = Inr (filled [Some 0, Some 1, Some 10, Some 11, Some 20, Some 21, None, None] 3 3)"
  by code_simp

lemma scenario_add_3:
  "add no_cast (filled [Some 0, Some 1, Some 10, Some 11, Some 20, Some 21, None, None] 3 3) (marked 3)
     = Inr full_buffer"
  by code_simp

lemma scenario_add_4:
  "add no_cast full_buffer (marked 4)
     = Inr (filled [Some 40, Some 41, Some 10, Some 11, Some 20, Some 21, Some 30, Some 31] 4 1)"
  by code_simp

lemma scenario_adds:
  "adds no_cast fresh_buffer [marked 0, marked 1, marked 2, marked 3] = Inr full_buffer"
  by (simp add: scenario_add_0 scenario_add_1 scenario_add_2 scenario_add_3)

lemma wf_data_marked: "wf_data (marked t)"
  by (simp add: marked_def wf_data_def wf_record_def wf_dict_def wf_array_def)

section \<open>When \<open>add\<close> returns\<close>

lemma setitem_ok:
  assumes "ring_array n a" "norm_index p n = Inr i" "tl (shape a) = shape v"
  shows "\<exists>a'. setitem cast a p v = Inr a'"
proof -
  from assms(1) obtain sl where sh: "shape a = n # sl"
    by (rule ring_arrayD)
  with assms(3) have "broadcastable (shape v) sl"
    by (simp add: broadcastable_refl)
  with sh assms(2) show ?thesis
    by (simp add: setitem_def broadcast_to_def)
qed

lemma add_fields_ok:
  assumes "wf_fields (nat mh) fs" "0 \<le> mh" "norm_index p (nat mh) = Inr i"
    and "distinct (map fst vs)" "list_all wf_array (map snd vs)" "fits_fields fs vs"
  shows "\<exists>fs'. add_fields cast mh p fs vs = Inr fs'"
  using assms(1,4,5,6)
proof (induction vs arbitrary: fs)
  case Nil
  then show ?case by simp
next
  case (Cons kv rest)
  obtain f v where kv: "kv = (f, v)" by (cases kv)
  from Cons.prems have d: "distinct (map fst rest)" and nf: "f \<notin> fst ` set rest"
    and wv: "wf_array v" and wr: "list_all wf_array (map snd rest)"
    and fr: "fits_fields fs rest"
    by (auto simp: kv fits_fields_def)
  obtain a where fs: "field_store mh fs f v = Inr a" and tl: "tl (shape a) = shape v"
  proof (cases "map_of fs f")
    case None
    with assms(2) that show ?thesis
      by (simp add: field_store_def np_empty_ring)
  next
    case (Some a0)
    with Cons.prems(4) that show ?thesis
      by (simp add: field_store_def fits_fields_def kv)
  qed
  have ra: "ring_array (nat mh) a"
    using Cons.prems(1) assms(2) fs by (rule field_store_ring)
  from setitem_ok [OF ra assms(3) tl] obtain a' where st: "setitem cast a p v = Inr a'"
    by blast
  have ra': "ring_array (nat mh) a'"
    using ra wv st by (rule setitem_ring)
  have w2: "wf_fields (nat mh) (AList.update f a' fs)"
    using Cons.prems(1) ra' by (rule wf_fields_update)
  have f2: "fits_fields (AList.update f a' fs) rest"
    unfolding fits_fields_def list_all_iff
  proof
    fix x assume x: "x \<in> set rest"
    then have "fst x \<noteq> f"
      using nf by auto
    moreover from fr x have "case x of (f', v') \<Rightarrow>
        (case map_of fs f' of None \<Rightarrow> True | Some a \<Rightarrow> tl (shape a) = shape v')"
      by (simp add: fits_fields_def list_all_iff)
    ultimately show "case x of (f', v') \<Rightarrow>
        (case map_of (AList.update f a' fs) f' of None \<Rightarrow> True | Some a \<Rightarrow> tl (shape a) = shape v')"
      by (cases x) (simp add: AList.update_conv')
  qed
  from Cons.IH [OF w2 d wr f2] fs st show ?case
    unfolding kv add_fields_step by simp
qed

lemma add_keys_ok:
  assumes "wf_store (nat mh) buf" "0 \<le> mh" "norm_index p (nat mh) = Inr i"
    and "distinct (map fst data)" "list_all wf_record (map snd data)" "fits buf data"
  shows "\<exists>buf'. add_keys cast mh p buf data = Inr buf'"
  using assms(1,4,5,6)
proof (induction data arbitrary: buf)
  case Nil
  then show ?case by simp
next
  case (Cons kv rest)
  obtain k vs where kv: "kv = (k, vs)" by (cases kv)
  from Cons.prems have d: "distinct (map fst rest)" and nk: "k \<notin> fst ` set rest"
    and wr: "list_all wf_record (map snd rest)"
    and fr: "fits buf rest" and fv: "fits_fields (fields_of buf k) vs"
    by (auto simp: kv fits_def)
  from Cons.prems(3) have wv: "distinct (map fst vs)" "list_all wf_array (map snd vs)"
    by (simp_all add: kv wf_record_def wf_dict_def)
  have w0: "wf_fields (nat mh) (fields_of buf k)"
    using Cons.prems(1) by (rule wf_store_fields_of)
  from add_fields_ok [OF w0 assms(2,3) wv fv] obtain fs'
    where af: "add_fields cast mh p (fields_of buf k) vs = Inr fs'"
    by blast
  have "wf_fields (nat mh) fs'"
    using af _ w0 wv(2) assms(2) by (rule add_fields_wf) simp
  then have w2: "wf_store (nat mh) (AList.update k fs' buf)"
    using Cons.prems(1) by (simp add: wf_store_update)
  have f2: "fits (AList.update k fs' buf) rest"
    unfolding fits_def list_all_iff
  proof
    fix x assume x: "x \<in> set rest"
    then have "fst x \<noteq> k"
      using nk by auto
    moreover from fr x have "case x of (k', vs') \<Rightarrow> fits_fields (fields_of buf k') vs'"
      by (simp add: fits_def list_all_iff)
    ultimately show "case x of (k', vs') \<Rightarrow> fits_fields (fields_of (AList.update k fs' buf) k') vs'"
      by (cases x) (simp add: fields_of_update)
  qed
  from Cons.IH [OF w2 d wr f2] af show ?case
    unfolding kv add_keys_step by simp
qed

lemma add_ok:
  assumes "wf_buffer b" "ring_inv b" "max_horizon b \<noteq> 0" "wf_data data" "fits (buffer b) data"
  shows "\<exists>b'. add cast b data = Inr b'"
proof -
  from assms(1) have mh: "0 \<le> max_horizon b" and ws: "wf_store (nat (max_horizon b)) (buffer b)"
    by (simp_all add: wf_buffer_def)
  from assms(2,3) have "0 \<le> pointer b" "pointer b < int (nat (max_horizon b))"
    by (auto simp: ring_inv_def)
  then have ni: "norm_index (pointer b) (nat (max_horizon b)) = Inr (nat (pointer b))"
    by (rule norm_index_nonneg)
  from assms(4) have "distinct (map fst data)" "list_all wf_record (map snd data)"
    by (simp_all add: wf_data_def wf_dict_def)
  from add_keys_ok [OF ws mh ni this assms(5)] obtain buf'
    where "add_keys cast (max_horizon b) (pointer b) (buffer b) data = Inr buf'"
    by blast
  with assms(3) show ?thesis
    by (simp add: add_def)
qed

section \<open>Exceptions of \<open>sample\<close>\<close>

lemma randint_error: "randint g low high n = Inl e \<Longrightarrow> e = ValueError"
  by (auto simp: randint_def split: if_splits)

lemma norm_index_error: "norm_index i n = Inl e \<Longrightarrow> e = IndexError"
  by (auto simp: norm_index_def split: if_splits)

lemma gather_row_error: "gather_row es n0 n1 sz ps = Inl e \<Longrightarrow> e = IndexError"
  by (induction es n0 n1 sz ps rule: gather_row.induct)
     (auto split: sum.splits dest: norm_index_error)

lemma gather_rows_error: "gather_rows es n0 n1 sz xs y = Inl e \<Longrightarrow> e = IndexError"
  by (induction es n0 n1 sz xs y rule: gather_rows.induct)
     (auto split: sum.splits dest: gather_row_error)

lemma getitem_error: "getitem a idx = Inl e \<Longrightarrow> e = IndexError"
  by (auto simp: getitem_def split: prod.splits list.splits sum.splits dest: gather_rows_error)

lemma sample_fields_error: "sample_fields idx fs acc = Inl e \<Longrightarrow> e = IndexError"
  by (induction idx fs acc rule: sample_fields.induct)
     (auto split: sum.splits dest: getitem_error)

lemma sample_keys_error: "sample_keys idx buf acc = Inl e \<Longrightarrow> e = IndexError"
  by (induction idx buf acc rule: sample_keys.induct)
     (auto split: sum.splits dest: sample_fields_error)

lemma sample_idxs_assertion:
  "(\<exists>g'. sample_idxs b g batchsize timestep = Inl (AssertionError, g'))
     \<longleftrightarrow> horizon_length b < py_or timestep (time_step b)"
  by (auto simp: sample_idxs_def Let_def split: sum.splits prod.splits dest: randint_error)

text \<open>
  C5. \<open>sample\<close> raises the assertion of line 83 exactly when the effective window length
  \<open>T\<close> exceeds the fill counter; every other exception of \<open>sample\<close> is a different one.
\<close>

theorem sample_raises_assertion_iff:
  "(\<exists>b' g'. sample b g batchsize timestep = Inl (AssertionError, b', g'))
     \<longleftrightarrow> horizon_length b < py_or timestep (time_step b)"
proof -
  have "(\<exists>b' g'. sample b g batchsize timestep = Inl (AssertionError, b', g'))
          \<longleftrightarrow> (\<exists>g'. sample_idxs b g batchsize timestep = Inl (AssertionError, g'))"
    by (auto simp: sample_def split: sum.splits prod.splits dest: sample_keys_error)
  then show ?thesis
    by (simp only: sample_idxs_assertion)
qed

theorem sample_raises_assertion_iff_witness:
  "(\<exists>b' g'. sample one_step_buffer (\<lambda>i. 0) None None = Inl (AssertionError, b', g')) \<and>
   \<not> (\<exists>b' g'. sample one_step_buffer (\<lambda>i. 0) None (Some 1) = Inl (AssertionError, b', g'))"
  using sample_raises_assertion_iff [of one_step_buffer "\<lambda>i. 0" None None]
        sample_raises_assertion_iff [of one_step_buffer "\<lambda>i. 0" None "Some 1"]
  by (simp add: one_step_buffer_def)

section \<open>\<open>sample\<close> reads only\<close>

text \<open>
  C6. \<open>sample\<close> never changes the buffer: the stored arrays, the write pointer and the
  fill counter after a call, returned or raised, are those before it; and a second call
  from the same state of the random source gives the same result as the first.
\<close>

theorem sample_does_not_mutate:
  "state_after (sample b g batchsize timestep) = b \<and>
   buffer (state_after (sample b g batchsize timestep)) = buffer b \<and>
   pointer (state_after (sample b g batchsize timestep)) = pointer b \<and>
   horizon_length (state_after (sample b g batchsize timestep)) = horizon_length b \<and>
   sample (state_after (sample b g batchsize timestep)) g batchsize timestep
     = sample b g batchsize timestep"
proof -
  have "state_after (sample b g batchsize timestep) = b"
    by (simp add: sample_def state_after_def split: sum.splits prod.splits)
  then show ?thesis
    by simp
qed

section \<open>\<open>can_sample\<close>\<close>

text \<open>
  C7. \<open>can_sample\<close> is true exactly when
  \<open>(fill_count - time_step) * n_copys >= batch_size\<close>; for a buffer of at least one copy and
  a batch size that is not negative, it is false whenever \<open>fill_count < time_step\<close>.
\<close>

theorem can_sample_iff:
  "(can_sample b \<longleftrightarrow> batch_size b \<le> (horizon_length b - time_step b) * n_copys b) \<and>
   (0 < n_copys b \<and> 0 \<le> batch_size b \<and> horizon_length b < time_step b \<longrightarrow> \<not> can_sample b)"
proof -
  have "(horizon_length b - time_step b) * n_copys b < 0"
    if "0 < n_copys b" "horizon_length b < time_step b"
    using that by (simp add: mult_neg_pos)
  then show ?thesis
    by (auto simp: can_sample_def)
qed

theorem can_sample_iff_witness:
  "0 < n_copys one_step_buffer \<and> 0 \<le> batch_size one_step_buffer \<and>
   horizon_length one_step_buffer < time_step one_step_buffer \<and> \<not> can_sample one_step_buffer"
  using can_sample_iff [of one_step_buffer]
  by (simp add: one_step_buffer_def)

section \<open>The pointer and the fill counter\<close>

lemma adds_counters:
  "adds cast b ds = Inr b' \<Longrightarrow>
     max_horizon b' = max_horizon b \<and> n_copys b' = n_copys b \<and>
     pointer b' = (if ds = [] then pointer b
                   else (pointer b + int (length ds)) mod max_horizon b) \<and>
     horizon_length b' = (if ds = [] then horizon_length b
                          else min (horizon_length b + int (length ds)) (max_horizon b))"
proof (induction ds arbitrary: b)
  case Nil
  then show ?case by simp
next
  case (Cons d ds)
  from Cons.prems obtain b1 where b1: "add cast b d = Inr b1" and rest: "adds cast b1 ds = Inr b'"
    by (auto split: sum.splits)
  from b1 have c: "max_horizon b1 = max_horizon b" "n_copys b1 = n_copys b"
    "pointer b1 = (pointer b + 1) mod max_horizon b"
    "horizon_length b1 = min (horizon_length b + 1) (max_horizon b)"
    by (auto elim!: add_Inr)
  show ?case
  proof (cases "ds = []")
    case True
    with rest c show ?thesis by simp
  next
    case False
    have "((pointer b + 1) mod max_horizon b + int (length ds)) mod max_horizon b
            = (pointer b + int (length (d # ds))) mod max_horizon b"
      using mod_add_left_eq [of "pointer b + 1" "max_horizon b" "int (length ds)"]
      by (simp add: algebra_simps)
    with Cons.IH [OF rest] False c show ?thesis
      by (simp add: min_def)
  qed
qed

lemma init_wf: "init nc bs bsz ts = Inr b \<Longrightarrow> 0 \<le> max_horizon b \<Longrightarrow> wf_buffer b"
  by (auto simp: init_def wf_buffer_def wf_store_def wf_dict_def split: if_splits)

lemma init_counters:
  "init nc bs bsz ts = Inr b \<Longrightarrow> pointer b = 0 \<and> horizon_length b = 0 \<and> buffer b = []"
  by (auto simp: init_def split: if_splits)

lemma adds_wf:
  "adds cast b ds = Inr b' \<Longrightarrow> wf_buffer b \<Longrightarrow> list_all wf_data ds \<Longrightarrow> wf_buffer b'"
proof (induction ds arbitrary: b)
  case Nil
  then show ?case by simp
next
  case (Cons d ds)
  from Cons.prems obtain b1 where b1: "add cast b d = Inr b1" and rest: "adds cast b1 ds = Inr b'"
    by (auto split: sum.splits)
  have "wf_buffer b1"
    using b1 _ Cons.prems(2) by (rule add_wf) (use Cons.prems in simp_all)
  with Cons.IH [OF rest] Cons.prems show ?case by simp
qed

lemma norm_index_zero: "norm_index 0 n = Inr i \<Longrightarrow> i = 0"
  by (auto simp: norm_index_def split: if_splits)

lemma wf_data_field:
  assumes "wf_data data" "field_of data k f = Some v"
  shows "wf_array v"
proof -
  from assms(2) obtain fs where "map_of data k = Some fs" "map_of fs f = Some v"
    by (auto simp: field_of_def fields_of_def split: option.splits)
  then have "fs \<in> snd ` set data" "v \<in> snd ` set fs"
    by (metis map_of_SomeD image_eqI snd_conv)+
  with assms(1) show ?thesis
    by (auto simp: wf_data_def wf_record_def list_all_iff)
qed

lemma add_writes_slot:
  assumes "add cast b data = Inr b'" "wf_buffer b" "wf_data data" "field_of data k f = Some v"
  shows "\<exists>a i vs. field_of (buffer b') k f = Some a \<and>
           norm_index (pointer b) (nat (max_horizon b)) = Inr i \<and>
           broadcast_to (shape v) (tl (shape a)) (elems v) = Some vs \<and>
           slot a i = map (map_option (cast (dtype v) (dtype a))) vs"
proof -
  from add_field_written [OF assms(1,3,4)] obtain a a'
    where fs: "field_store (max_horizon b) (fields_of (buffer b) k) f v = Inr a"
      and st: "setitem cast a (pointer b) v = Inr a'"
      and fo: "field_of (buffer b') k f = Some a'"
    by blast
  from assms(2) have mh: "0 \<le> max_horizon b"
    and wf: "wf_fields (nat (max_horizon b)) (fields_of (buffer b) k)"
    by (simp_all add: wf_buffer_def wf_store_fields_of)
  have ra: "ring_array (nat (max_horizon b)) a"
    using wf mh fs by (rule field_store_ring)
  have wv: "wf_array v"
    using assms(3,4) by (rule wf_data_field)
  from setitem_slot [OF ra wv st] setitem_shape [OF st] fo show ?thesis
    by auto
qed

text \<open>
  C3. A call of \<open>add\<close> with consistent shapes on a buffer of at least one time slot
  returns, and a call that returns has advanced the shared pointer by one modulo
  \<open>max_horizon\<close> and the fill counter by one, capped at \<open>max_horizon\<close>. After exactly
  \<open>max_horizon\<close> calls on a fresh buffer the pointer is 0 again and the buffer is full, and
  the next call stores each of its arrays, broadcast and converted, in time slot 0 of its
  field, where the oldest data was.
\<close>

theorem add_advances_pointer:
  "(wf_buffer b \<and> ring_inv b \<and> max_horizon b \<noteq> 0 \<and> wf_data data \<and> fits (buffer b) data \<longrightarrow>
      (\<exists>b'. add cast b data = Inr b')) \<and>
   (add cast b data = Inr b' \<longrightarrow>
      pointer b' = (pointer b + 1) mod max_horizon b \<and>
      horizon_length b' = min (horizon_length b + 1) (max_horizon b)) \<and>
   (init nc bs bsz ts = Inr b0 \<and> adds cast b0 ds = Inr b1 \<and> int (length ds) = max_horizon b0 \<longrightarrow>
      pointer b1 = 0 \<and> horizon_length b1 = max_horizon b0 \<and>
      (list_all wf_data ds \<and> wf_data d \<and> add cast b1 d = Inr b2 \<and> field_of d k f = Some v \<longrightarrow>
         (\<exists>a vs. field_of (buffer b2) k f = Some a \<and>
            broadcast_to (shape v) (tl (shape a)) (elems v) = Some vs \<and>
            slot a 0 = map (map_option (cast (dtype v) (dtype a))) vs)))"
proof (intro conjI impI)
  assume "wf_buffer b \<and> ring_inv b \<and> max_horizon b \<noteq> 0 \<and> wf_data data \<and> fits (buffer b) data"
  then show "\<exists>b'. add cast b data = Inr b'"
    by (auto intro: add_ok)
next
  assume "add cast b data = Inr b'"
  then show "pointer b' = (pointer b + 1) mod max_horizon b"
    and "horizon_length b' = min (horizon_length b + 1) (max_horizon b)"
    by (auto elim!: add_Inr)
next
  assume a: "init nc bs bsz ts = Inr b0 \<and> adds cast b0 ds = Inr b1 \<and> int (length ds) = max_horizon b0"
  then have i: "pointer b0 = 0" "horizon_length b0 = 0"
    by (auto dest: init_counters)
  from a have len: "int (length ds) = max_horizon b0" and run: "adds cast b0 ds = Inr b1"
    by simp_all
  have c: "pointer b1 = 0 \<and> horizon_length b1 = max_horizon b0"
  proof (cases "ds = []")
    case True
    with run len i show ?thesis by simp
  next
    case False
    with adds_counters [OF run] i len show ?thesis by simp
  qed
  then show p: "pointer b1 = 0" and "horizon_length b1 = max_horizon b0"
    by simp_all
  assume w: "list_all wf_data ds \<and> wf_data d \<and> add cast b1 d = Inr b2 \<and> field_of d k f = Some v"
  from a have "0 \<le> max_horizon b0" by linarith
  with a have "wf_buffer b0" by (auto intro: init_wf)
  with a w have "wf_buffer b1" by (auto intro: adds_wf)
  with w have "\<exists>a i vs. field_of (buffer b2) k f = Some a \<and>
           norm_index (pointer b1) (nat (max_horizon b1)) = Inr i \<and>
           broadcast_to (shape v) (tl (shape a)) (elems v) = Some vs \<and>
           slot a i = map (map_option (cast (dtype v) (dtype a))) vs"
    using add_writes_slot [of cast b1 d b2 k f v] by simp
  then show "\<exists>a vs. field_of (buffer b2) k f = Some a \<and>
            broadcast_to (shape v) (tl (shape a)) (elems v) = Some vs \<and>
            slot a 0 = map (map_option (cast (dtype v) (dtype a))) vs"
    unfolding p by (metis norm_index_zero)
qed

theorem add_advances_pointer_witness:
  "wf_buffer full_buffer \<and> ring_inv full_buffer \<and> max_horizon full_buffer \<noteq> 0 \<and>
   wf_data (marked 4) \<and> fits (buffer full_buffer) (marked 4) \<and>
   init 2 4 8 2 = Inr fresh_buffer \<and>
   adds no_cast fresh_buffer [marked 0, marked 1, marked 2, marked 3] = Inr full_buffer \<and>
   int (length [marked 0, marked 1, marked 2, marked 3]) = max_horizon fresh_buffer \<and>
   pointer full_buffer = 0 \<and> horizon_length full_buffer = max_horizon fresh_buffer \<and>
   add no_cast full_buffer (marked 4)
     = Inr (filled [Some 40, Some 41, Some 10, Some 11, Some 20, Some 21, Some 30, Some 31] 4 1) \<and>
   pointer (filled [Some 40, Some 41, Some 10, Some 11, Some 20, Some 21, Some 30, Some 31] 4 1)
     = (pointer full_buffer + 1) mod max_horizon full_buffer \<and>
   (\<exists>a vs. field_of (buffer (filled [Some 40, Some 41, Some 10, Some 11, Some 20, Some 21,
                                        Some 30, Some 31] 4 1)) ''agent_0'' ''obs'' = Some a \<and>
      broadcast_to [2, 1] (tl (shape a)) [Some 40, Some 41] = Some vs \<and>
      slot a 0 = map (map_option (no_cast Int64 (dtype a))) vs)"
proof -
  have v: "field_of (marked 4) ''agent_0'' ''obs''
             = Some \<lparr>shape = [2, 1], dtype = Int64, elems = [Some 40, Some 41]\<rparr>"
    by (simp add: marked_def field_of_def fields_of_def)
  have w: "list_all wf_data [marked 0, marked 1, marked 2, marked 3]"
    by (simp add: wf_data_marked)
  have m: "max_horizon fresh_buffer = 4"
    by (simp add: fresh_buffer_def)
  have wb: "wf_buffer full_buffer"
    by (simp add: full_buffer_def filled_def wf_buffer_def wf_store_def wf_fields_def wf_dict_def
        ring_array_def wf_array_def)
  have rb: "ring_inv full_buffer" "max_horizon full_buffer \<noteq> 0"
    by (simp_all add: full_buffer_def filled_def ring_inv_def)
  have fb: "fits (buffer full_buffer) (marked 4)"
    by (simp add: full_buffer_def filled_def marked_def fits_def fits_fields_def fields_of_def)
  from add_advances_pointer
         [where cast = no_cast and b = full_buffer and data = "marked 4"
            and b' = "filled [Some 40, Some 41, Some 10, Some 11, Some 20, Some 21, Some 30, Some 31] 4 1"
            and nc = 2 and bs = 4 and bsz = 8 and ts = 2 and ?b0.0 = fresh_buffer
            and ds = "[marked 0, marked 1, marked 2, marked 3]" and ?b1.0 = full_buffer
            and d = "marked 4"
            and ?b2.0 = "filled [Some 40, Some 41, Some 10, Some 11, Some 20, Some 21, Some 30, Some 31] 4 1"
            and k = "''agent_0''" and f = "''obs''"
            and v = "\<lparr>shape = [2, 1], dtype = Int64, elems = [Some 40, Some 41]\<rparr>"]
       scenario_init scenario_adds scenario_add_4 v w m wf_data_marked [of 4] wb rb fb
  show ?thesis
    by simp
qed

section \<open>Index arrays\<close>

lemma block_append_first:
  "length r = sz \<Longrightarrow> block (r @ rs) sz 0 = r"
  by (simp add: block_def)

lemma block_append_later:
  "length r = n * sz \<Longrightarrow> block (r @ rs) sz (n + j) = block rs sz j"
  by (simp add: block_def add_mult_distrib)

lemma block_append_earlier:
  "(j + 1) * sz \<le> length r \<Longrightarrow> block (r @ rs) sz j = block r sz j"
  by (simp add: block_def)

lemma gather_row_blocks:
  assumes "gather_row es n0 n1 sz ps = Inr r" "length es = n0 * n1 * sz"
  shows "length r = length ps * sz \<and>
         (\<forall>j < length ps. \<exists>i c. norm_index (fst (ps ! j)) n0 = Inr i \<and>
             norm_index (snd (ps ! j)) n1 = Inr c \<and>
             block r sz j = block es sz (i * n1 + c))"
  using assms
proof (induction ps arbitrary: r)
  case Nil
  then show ?case by simp
next
  case (Cons p ps)
  obtain i0 c0 where p: "p = (i0, c0)" by (cases p)
  from Cons.prems obtain i c r' where i: "norm_index i0 n0 = Inr i" and c: "norm_index c0 n1 = Inr c"
    and r': "gather_row es n0 n1 sz ps = Inr r'" and r: "r = block es sz (i * n1 + c) @ r'"
    by (auto simp: p split: sum.splits)
  have "i * n1 + c < n0 * n1"
  proof -
    have "i < n0" "c < n1" using i c by (auto dest: norm_index_less)
    then have "i * n1 + c < (i + 1) * n1" by simp
    also have "\<dots> \<le> n0 * n1" using \<open>i < n0\<close> by (metis Suc_eq_plus1 Suc_leI mult_le_mono1)
    finally show ?thesis .
  qed
  then have "(i * n1 + c + 1) * sz \<le> length es"
    using Cons.prems(2) slot_bound [of "i * n1 + c" "n0 * n1" es sz] by simp
  then have lb: "length (block es sz (i * n1 + c)) = sz"
    by (rule length_block)
  note IH = Cons.IH [OF r' Cons.prems(2)]
  have "\<exists>i c. norm_index (fst ((p # ps) ! j)) n0 = Inr i \<and>
             norm_index (snd ((p # ps) ! j)) n1 = Inr c \<and>
             block r sz j = block es sz (i * n1 + c)" if "j < length (p # ps)" for j
  proof (cases j)
    case 0
    with i c lb show ?thesis
      by (auto simp: p r block_append_first)
  next
    case (Suc j')
    with that have "j' < length ps" by simp
    with IH obtain i' c' where "norm_index (fst (ps ! j')) n0 = Inr i'"
      "norm_index (snd (ps ! j')) n1 = Inr c'" "block r' sz j' = block es sz (i' * n1 + c')"
      by blast
    moreover have "block r sz (Suc j') = block r' sz j'"
      using block_append_later [of "block es sz (i * n1 + c)" 1 sz r' j'] lb
      by (simp add: r)
    ultimately show ?thesis
      using Suc by auto
  qed
  with IH lb show ?case
    by (simp add: r)
qed

lemma gather_rows_blocks:
  assumes "gather_rows es n0 n1 sz xs y = Inr rs" "length es = n0 * n1 * sz"
    and "\<forall>row \<in> set xs. length row = length y"
  shows "length rs = length xs * length y * sz \<and>
         (\<forall>t < length xs. \<forall>j < length y. \<exists>i c. norm_index (xs ! t ! j) n0 = Inr i \<and>
             norm_index (y ! j) n1 = Inr c \<and>
             block rs sz (t * length y + j) = block es sz (i * n1 + c))"
  using assms
proof (induction xs arbitrary: rs)
  case Nil
  then show ?case by simp
next
  case (Cons row xs)
  from Cons.prems obtain r rs' where r: "gather_row es n0 n1 sz (zip row y) = Inr r"
    and rs': "gather_rows es n0 n1 sz xs y = Inr rs'" and rs: "rs = r @ rs'"
    by (auto split: sum.splits)
  from Cons.prems have lrow: "length row = length y" and rest: "\<forall>row \<in> set xs. length row = length y"
    by simp_all
  note R = gather_row_blocks [OF r Cons.prems(2)]
  note IH = Cons.IH [OF rs' Cons.prems(2) rest]
  from R lrow have lr: "length r = length y * sz" by simp
  have "\<exists>i c. norm_index ((row # xs) ! t ! j) n0 = Inr i \<and>
             norm_index (y ! j) n1 = Inr c \<and>
             block rs sz (t * length y + j) = block es sz (i * n1 + c)"
    if "t < length (row # xs)" "j < length y" for t j
  proof (cases t)
    case 0
    from that lrow have jz: "j < length (zip row y)" by simp
    with R obtain i c where "norm_index (fst (zip row y ! j)) n0 = Inr i"
      "norm_index (snd (zip row y ! j)) n1 = Inr c" "block r sz j = block es sz (i * n1 + c)"
      by blast
    moreover have "(j + 1) * sz \<le> length r"
      using that(2) lr by (metis Suc_eq_plus1 Suc_leI mult_le_mono1)
    then have "block rs sz j = block r sz j"
      by (simp add: rs block_append_earlier)
    ultimately show ?thesis
      using 0 that lrow by auto
  next
    case (Suc t')
    with that have "t' < length xs" by simp
    with IH that obtain i c where "norm_index (xs ! t' ! j) n0 = Inr i"
      "norm_index (y ! j) n1 = Inr c"
      "block rs' sz (t' * length y + j) = block es sz (i * n1 + c)"
      by blast
    moreover have "block rs sz (length y + (t' * length y + j)) = block rs' sz (t' * length y + j)"
      unfolding rs using lr by (rule block_append_later)
    ultimately show ?thesis
      using Suc by (auto simp: add.assoc)
  qed
  with IH lr show ?case
    by (simp add: rs add_mult_distrib)
qed

lemma getitem_Inr:
  assumes "getitem a (xs, y) = Inr r"
  obtains n0 n1 dims es where "shape a = n0 # n1 # dims"
    "gather_rows (elems a) n0 n1 (prod_list dims) xs y = Inr es"
    "r = \<lparr>shape = length xs # length y # dims, dtype = dtype a, elems = es\<rparr>"
  using assms by (auto simp: getitem_def split: list.splits sum.splits)

lemma getitem_cells:
  assumes "getitem a (xs, y) = Inr r" "wf_array a" "\<forall>row \<in> set xs. length row = length y"
  shows "shape r = length xs # length y # drop 2 (shape a) \<and> dtype r = dtype a \<and> wf_array r \<and>
         (\<forall>t < length xs. \<forall>j < length y. \<exists>i c.
             norm_index (xs ! t ! j) (shape a ! 0) = Inr i \<and>
             norm_index (y ! j) (shape a ! 1) = Inr c \<and>
             cell r t j = cell a i c)"
proof -
  from assms(1) obtain n0 n1 dims es where sh: "shape a = n0 # n1 # dims"
    and es: "gather_rows (elems a) n0 n1 (prod_list dims) xs y = Inr es"
    and r: "r = \<lparr>shape = length xs # length y # dims, dtype = dtype a, elems = es\<rparr>"
    by (rule getitem_Inr)
  have len: "length (elems a) = n0 * n1 * prod_list dims"
    using assms(2) sh by (simp add: wf_array_def)
  note G = gather_rows_blocks [OF es len assms(3)]
  from G sh r show ?thesis
    by (simp add: cell_def wf_array_def)
qed

lemma update_fresh: "k \<notin> fst ` set al \<Longrightarrow> AList.update k v al = al @ [(k, v)]"
  by (induction al) auto

lemma sample_fields_lookup:
  assumes "sample_fields idx fs acc = Inr res" "distinct (map fst fs)"
  shows "(map_of fs f = None \<longrightarrow> map_of res f = map_of acc f) \<and>
         (\<forall>a. map_of fs f = Some a \<longrightarrow> (\<exists>r. getitem a idx = Inr r \<and> map_of res f = Some r))"
  using assms
proof (induction fs arbitrary: acc)
  case Nil
  then show ?case by simp
next
  case (Cons kv rest)
  obtain k v where kv: "kv = (k, v)" by (cases kv)
  from Cons.prems obtain r where gi: "getitem v idx = Inr r"
    and rec: "sample_fields idx rest (AList.update k r acc) = Inr res"
    by (auto simp: kv split: sum.splits)
  from Cons.prems have d: "distinct (map fst rest)" and nk: "k \<notin> fst ` set rest"
    by (auto simp: kv)
  note IH = Cons.IH [OF rec d]
  show ?case
  proof (cases "f = k")
    case True
    have "map_of rest k = None"
      using nk by (simp add: map_of_eq_None_iff)
    with IH True have "map_of res k = Some r"
      by (simp add: AList.update_conv')
    with True gi show ?thesis
      by (simp add: kv)
  next
    case False
    with IH show ?thesis
      by (simp add: kv AList.update_conv')
  qed
qed

lemma sample_fields_names:
  assumes "sample_fields idx fs acc = Inr res" "distinct (map fst acc @ map fst fs)"
  shows "map fst res = map fst acc @ map fst fs"
  using assms
proof (induction fs arbitrary: acc)
  case Nil
  then show ?case by simp
next
  case (Cons kv rest)
  obtain k v where kv: "kv = (k, v)" by (cases kv)
  from Cons.prems obtain r where
    rec: "sample_fields idx rest (AList.update k r acc) = Inr res"
    by (auto simp: kv split: sum.splits)
  from Cons.prems have "k \<notin> fst ` set acc"
    by (auto simp: kv)
  then have u: "AList.update k r acc = acc @ [(k, r)]"
    by (rule update_fresh)
  from Cons.prems have "distinct (map fst (acc @ [(k, r)]) @ map fst rest)"
    by (auto simp: kv)
  from Cons.IH [OF rec [unfolded u] this] show ?case
    by (simp add: kv)
qed

lemma sample_keys_lookup:
  assumes "sample_keys idx buf acc = Inr res" "distinct (map fst buf)"
  shows "(map_of buf k = None \<longrightarrow> map_of res k = map_of acc k) \<and>
         (\<forall>fs. map_of buf k = Some fs \<longrightarrow>
            (\<exists>rs. sample_fields idx fs [] = Inr rs \<and> map_of res k = Some rs))"
  using assms
proof (induction buf arbitrary: acc)
  case Nil
  then show ?case by simp
next
  case (Cons kv rest)
  obtain k0 v where kv: "kv = (k0, v)" by (cases kv)
  from Cons.prems obtain r where gi: "sample_fields idx v [] = Inr r"
    and rec: "sample_keys idx rest (AList.update k0 r acc) = Inr res"
    by (auto simp: kv split: sum.splits)
  from Cons.prems have d: "distinct (map fst rest)" and nk: "k0 \<notin> fst ` set rest"
    by (auto simp: kv)
  note IH = Cons.IH [OF rec d]
  show ?case
  proof (cases "k = k0")
    case True
    have "map_of rest k0 = None"
      using nk by (simp add: map_of_eq_None_iff)
    with IH True have "map_of res k0 = Some r"
      by (simp add: AList.update_conv')
    with True gi show ?thesis
      by (simp add: kv)
  next
    case False
    with IH show ?thesis
      by (simp add: kv AList.update_conv')
  qed
qed

lemma sample_keys_names:
  assumes "sample_keys idx buf acc = Inr res" "distinct (map fst acc @ map fst buf)"
  shows "map fst res = map fst acc @ map fst buf"
  using assms
proof (induction buf arbitrary: acc)
  case Nil
  then show ?case by simp
next
  case (Cons kv rest)
  obtain k v where kv: "kv = (k, v)" by (cases kv)
  from Cons.prems obtain r where
    rec: "sample_keys idx rest (AList.update k r acc) = Inr res"
    by (auto simp: kv split: sum.splits)
  from Cons.prems have "k \<notin> fst ` set acc"
    by (auto simp: kv)
  then have u: "AList.update k r acc = acc @ [(k, r)]"
    by (rule update_fresh)
  from Cons.prems have "distinct (map fst (acc @ [(k, r)]) @ map fst rest)"
    by (auto simp: kv)
  from Cons.IH [OF rec [unfolded u] this] show ?case
    by (simp add: kv)
qed

lemma randint_Inr:
  assumes "randint g low high n = Inr (vs, g')"
  shows "0 \<le> n \<and> length vs = nat n \<and> (\<forall>v \<in> set vs. low \<le> v \<and> v < high)"
proof (cases "n = 0")
  case True
  with assms show ?thesis by (simp add: randint_def)
next
  case False
  with assms have n: "0 < n" and lh: "low < high"
    and vs: "vs = map (\<lambda>i. low + int (g i mod nat (high - low))) [0..<nat n]"
    by (auto simp: randint_def split: if_splits)
  have "low + int (g i mod nat (high - low)) < high" for i
  proof -
    have "g i mod nat (high - low) < nat (high - low)"
      using lh by simp
    then show ?thesis by linarith
  qed
  with n vs show ?thesis by auto
qed




lemma sample_idxs_Inr:
  assumes "sample_idxs b g batchsize timestep = Inr ((x, xs, y), g')"
  shows "py_or timestep (time_step b) \<le> horizon_length b"
    and "0 \<le> py_or batchsize (batch_size b)"
    and "length x = nat (py_or batchsize (batch_size b))"
    and "length y = nat (py_or batchsize (batch_size b))"
    and "\<forall>xb \<in> set x. (if horizon_length b = max_horizon b then pointer b - max_horizon b else 0) \<le> xb
            \<and> xb \<le> pointer b - py_or timestep (time_step b)"
    and "\<forall>yb \<in> set y. 0 \<le> yb \<and> yb < n_copys b"
    and "xs = map (\<lambda>t. map (\<lambda>xb. (int t + xb) mod horizon_length b) x)
                [0..<nat (py_or timestep (time_step b))]"
proof -
  let ?B = "py_or batchsize (batch_size b)" and ?T = "py_or timestep (time_step b)"
  let ?start = "if horizon_length b = max_horizon b then pointer b - max_horizon b else 0"
  from assms show T: "?T \<le> horizon_length b"
    by (auto simp: sample_idxs_def Let_def split: if_splits)
  with assms obtain g1 where x: "randint g ?start (pointer b - ?T + 1) ?B = Inr (x, g1)"
    and y: "randint g1 0 (n_copys b) ?B = Inr (y, g')"
    and xs: "xs = map (\<lambda>t. map (\<lambda>xb. (int t + xb) mod horizon_length b) x) [0..<nat ?T]"
    by (auto simp: sample_idxs_def Let_def split: if_splits sum.splits)
  from randint_Inr [OF x] show "0 \<le> ?B" "length x = nat ?B"
    "\<forall>xb \<in> set x. ?start \<le> xb \<and> xb \<le> pointer b - ?T"
    by auto
  from randint_Inr [OF y] show "length y = nat ?B" "\<forall>yb \<in> set y. 0 \<le> yb \<and> yb < n_copys b"
    by auto
  from xs show "xs = map (\<lambda>t. map (\<lambda>xb. (int t + xb) mod horizon_length b) x) [0..<nat ?T]" .
qed

lemma sample_Inr:
  assumes "sample b g batchsize timestep = Inr (samples, b', g')"
  obtains x xs y where "sample_idxs b g batchsize timestep = Inr ((x, xs, y), g')"
    "sample_keys (xs, y) (buffer b) [] = Inr samples" "b' = b"
proof (cases "sample_idxs b g batchsize timestep")
  case (Inl eg)
  with assms show ?thesis
    by (cases eg) (simp add: sample_def)
next
  case (Inr ig)
  obtain x xs y g1 where ig: "ig = ((x, xs, y), g1)"
    by (metis prod.exhaust)
  show ?thesis
  proof (cases "sample_keys (xs, y) (buffer b) []")
    case (Inl e)
    with Inr assms show ?thesis
      by (simp add: sample_def ig)
  next
    case sk: (Inr res)
    with Inr assms have "res = samples" "b' = b" "g1 = g'"
      by (simp_all add: sample_def ig)
    with Inr sk that show ?thesis
      by (simp add: ig)
  qed
qed

lemma norm_index_nat: "norm_index v n = Inr i \<Longrightarrow> 0 \<le> v \<Longrightarrow> i = nat v"
  by (auto simp: norm_index_def split: if_splits)

lemma wf_buffer_field:
  assumes "wf_buffer b" "map_of (buffer b) k = Some fs"
  shows "distinct (map fst (buffer b))" "distinct (map fst fs)"
    "map_of fs f = Some a \<Longrightarrow> ring_array (nat (max_horizon b)) a"
proof -
  from assms(1) show "distinct (map fst (buffer b))"
    by (simp add: wf_buffer_def wf_store_def wf_dict_def)
  have "fs \<in> snd ` set (buffer b)"
    using assms(2) by (metis map_of_SomeD image_eqI snd_conv)
  with assms(1) have w: "wf_fields (nat (max_horizon b)) fs"
    by (auto simp: wf_buffer_def wf_store_def list_all_iff)
  then show "distinct (map fst fs)"
    by (simp add: wf_fields_def wf_dict_def)
  assume "map_of fs f = Some a"
  then have "a \<in> snd ` set fs"
    by (metis map_of_SomeD image_eqI snd_conv)
  with w show "ring_array (nat (max_horizon b)) a"
    by (auto simp: wf_fields_def list_all_iff)
qed

lemma sample_field_cells:
  assumes "wf_buffer b" "sample b g batchsize timestep = Inr (samples, b', g')"
    and "sample_idxs b g batchsize timestep = Inr ((x, xs, y), g'')"
    and "map_of (buffer b) k = Some fs" "map_of fs f = Some a"
  shows "\<exists>r. field_of samples k f = Some r \<and>
           shape r = nat (py_or timestep (time_step b)) # nat (py_or batchsize (batch_size b))
                       # drop 2 (shape a) \<and>
           dtype r = dtype a \<and> wf_array r \<and>
           (\<forall>t < nat (py_or timestep (time_step b)). \<forall>j < nat (py_or batchsize (batch_size b)).
               cell r t j = cell a (nat ((int t + x ! j) mod horizon_length b)) (nat (y ! j)))"
proof -
  let ?B = "py_or batchsize (batch_size b)" and ?T = "py_or timestep (time_step b)"
  from assms(2,3) have sk: "sample_keys (xs, y) (buffer b) [] = Inr samples"
    by (auto elim!: sample_Inr)
  note I = sample_idxs_Inr [OF assms(3)]
  note W = wf_buffer_field [OF assms(1,4)]
  from sample_keys_lookup [OF sk W(1), of k] assms(4) obtain rs
    where sf: "sample_fields (xs, y) fs [] = Inr rs" and mr: "map_of samples k = Some rs"
    by auto
  from sample_fields_lookup [OF sf W(2), of f] assms(5) obtain r
    where gi: "getitem a (xs, y) = Inr r" and mf: "map_of rs f = Some r"
    by auto
  have wa: "wf_array a"
    using W(3) [OF assms(5)] by (simp add: ring_array_def)
  have lx: "length xs = nat ?T"
    by (simp add: I(7))
  have rows: "\<forall>row \<in> set xs. length row = length y"
    by (auto simp: I(7) I(3) I(4))
  note C = getitem_cells [OF gi wa rows]
  have "cell r t j = cell a (nat ((int t + x ! j) mod horizon_length b)) (nat (y ! j))"
    if t: "t < nat ?T" and j: "j < nat ?B" for t j
  proof -
    from t j lx I(4) have "t < length xs" "j < length y"
      by simp_all
    with C obtain i c where i: "norm_index (xs ! t ! j) (shape a ! 0) = Inr i"
      and c: "norm_index (y ! j) (shape a ! 1) = Inr c" and e: "cell r t j = cell a i c"
      by blast
    have xtj: "xs ! t ! j = (int t + x ! j) mod horizon_length b"
      using t j by (simp add: I(7) I(3))
    from t I(1) have "0 < horizon_length b" by linarith
    then have "0 \<le> xs ! t ! j"
      by (simp add: xtj)
    with i have "i = nat (xs ! t ! j)"
      by (rule norm_index_nat)
    moreover have "0 \<le> y ! j"
      using I(6) j I(4) by (metis nth_mem)
    with c have "c = nat (y ! j)"
      by (rule norm_index_nat)
    ultimately show ?thesis
      using e xtj by simp
  qed
  with C mr mf lx I(4) show ?thesis
    by (simp add: field_of_def fields_of_def)
qed

section \<open>When \<open>sample\<close> returns\<close>

lemma init_ring: "init nc bs bsz ts = Inr b \<Longrightarrow> 0 \<le> max_horizon b \<Longrightarrow> ring_inv b"
  by (auto simp: init_def ring_inv_def split: if_splits)

lemma add_ring:
  assumes "add cast b data = Inr b'" "ring_inv b"
  shows "ring_inv b'"
proof -
  from assms(1) have mh: "max_horizon b \<noteq> 0" and m': "max_horizon b' = max_horizon b"
    and p': "pointer b' = (pointer b + 1) mod max_horizon b"
    and h': "horizon_length b' = min (horizon_length b + 1) (max_horizon b)"
    by (auto elim!: add_Inr)
  from assms(2) mh have pos: "0 < max_horizon b"
    by (auto simp: ring_inv_def)
  then have r: "0 \<le> pointer b'" "pointer b' < max_horizon b"
    by (simp_all add: p')
  show ?thesis
  proof (cases "horizon_length b = max_horizon b")
    case True
    with r h' m' show ?thesis
      by (simp add: ring_inv_def)
  next
    case False
    with assms(2) have ph: "pointer b = horizon_length b" and lt: "horizon_length b < max_horizon b"
      by (auto simp: ring_inv_def)
    show ?thesis
    proof (cases "pointer b + 1 = max_horizon b")
      case True
      with ph pos h' p' m' show ?thesis
        by (simp add: ring_inv_def)
    next
      case False
      with ph lt have lt': "pointer b + 1 < max_horizon b"
        by simp
      with assms(2) have "(pointer b + 1) mod max_horizon b = pointer b + 1"
        by (simp add: ring_inv_def)
      with ph lt lt' h' p' m' assms(2) show ?thesis
        by (simp add: ring_inv_def)
    qed
  qed
qed

lemma adds_ring: "adds cast b ds = Inr b' \<Longrightarrow> ring_inv b \<Longrightarrow> ring_inv b'"
proof (induction ds arbitrary: b)
  case Nil
  then show ?case by simp
next
  case (Cons d ds)
  from Cons.prems obtain b1 where b1: "add cast b d = Inr b1" and rest: "adds cast b1 ds = Inr b'"
    by (auto split: sum.splits)
  from add_ring [OF b1 Cons.prems(2)] Cons.IH [OF rest] show ?case by simp
qed

lemma gather_row_ok:
  assumes "\<forall>p \<in> set ps. 0 \<le> fst p \<and> fst p < int n0 \<and> 0 \<le> snd p \<and> snd p < int n1"
  shows "\<exists>r. gather_row es n0 n1 sz ps = Inr r"
  using assms
proof (induction ps)
  case Nil
  then show ?case by simp
next
  case (Cons p ps)
  obtain i c where p: "p = (i, c)" by (cases p)
  from Cons.prems have "norm_index i n0 = Inr (nat i)" "norm_index c n1 = Inr (nat c)"
    by (simp_all add: p norm_index_nonneg)
  moreover from Cons obtain r where "gather_row es n0 n1 sz ps = Inr r"
    by auto
  ultimately show ?case
    by (simp add: p)
qed

lemma gather_rows_ok:
  assumes "\<forall>row \<in> set xs. \<forall>i \<in> set row. 0 \<le> i \<and> i < int n0"
    and "\<forall>c \<in> set y. 0 \<le> c \<and> c < int n1"
  shows "\<exists>rs. gather_rows es n0 n1 sz xs y = Inr rs"
  using assms
proof (induction xs)
  case Nil
  then show ?case by simp
next
  case (Cons row xs)
  have "\<forall>p \<in> set (zip row y). 0 \<le> fst p \<and> fst p < int n0 \<and> 0 \<le> snd p \<and> snd p < int n1"
  proof
    fix p assume "p \<in> set (zip row y)"
    then have "fst p \<in> set row" "snd p \<in> set y"
      by (metis prod.collapse set_zip_leftD, metis prod.collapse set_zip_rightD)
    with Cons.prems show "0 \<le> fst p \<and> fst p < int n0 \<and> 0 \<le> snd p \<and> snd p < int n1"
      by simp
  qed
  then obtain r where "gather_row es n0 n1 sz (zip row y) = Inr r"
    using gather_row_ok by blast
  moreover from Cons obtain rs where "gather_rows es n0 n1 sz xs y = Inr rs"
    by auto
  ultimately show ?case
    by simp
qed

lemma getitem_ok:
  assumes "shape a = n0 # n1 # dims"
    and "\<forall>row \<in> set xs. \<forall>i \<in> set row. 0 \<le> i \<and> i < int n0"
    and "\<forall>c \<in> set y. 0 \<le> c \<and> c < int n1"
  shows "\<exists>r. getitem a (xs, y) = Inr r"
proof -
  from gather_rows_ok [OF assms(2,3)] obtain rs
    where "gather_rows (elems a) n0 n1 (prod_list dims) xs y = Inr rs"
    by blast
  with assms(1) show ?thesis
    by (simp add: getitem_def)
qed

lemma sample_fields_ok:
  assumes "\<forall>a \<in> snd ` set fs. \<exists>r. getitem a idx = Inr r"
  shows "\<exists>res. sample_fields idx fs acc = Inr res"
  using assms
proof (induction fs arbitrary: acc)
  case Nil
  then show ?case by simp
next
  case (Cons kv fs)
  obtain k v where kv: "kv = (k, v)" by (cases kv)
  from Cons.prems obtain r where "getitem v idx = Inr r"
    by (auto simp: kv)
  moreover have "\<forall>a \<in> snd ` set fs. \<exists>r. getitem a idx = Inr r"
    using Cons.prems by simp
  from Cons.IH [OF this] obtain res where "sample_fields idx fs (AList.update k r acc) = Inr res"
    by blast
  ultimately show ?case
    by (simp add: kv)
qed

lemma sample_keys_ok:
  assumes "\<forall>fs \<in> snd ` set buf. \<exists>r. sample_fields idx fs [] = Inr r"
  shows "\<exists>res. sample_keys idx buf acc = Inr res"
  using assms
proof (induction buf arbitrary: acc)
  case Nil
  then show ?case by simp
next
  case (Cons kv buf)
  obtain k v where kv: "kv = (k, v)" by (cases kv)
  from Cons.prems obtain r where "sample_fields idx v [] = Inr r"
    by (auto simp: kv)
  moreover have "\<forall>fs \<in> snd ` set buf. \<exists>r. sample_fields idx fs [] = Inr r"
    using Cons.prems by simp
  from Cons.IH [OF this] obtain res where "sample_keys idx buf (AList.update k r acc) = Inr res"
    by blast
  ultimately show ?case
    by (simp add: kv)
qed

lemma randint_ok:
  assumes "0 < n" "low < high" "int64_range low high"
  shows "\<exists>vs g'. randint g low high n = Inr (vs, g')"
  using assms by (simp add: randint_def)

lemma sample_idxs_ok:
  assumes "ring_inv b" "py_or timestep (time_step b) \<le> horizon_length b"
    and "0 < py_or batchsize (batch_size b)" "0 < n_copys b"
    and "0 \<le> py_or timestep (time_step b)" "max_horizon b < 2 ^ 63" "n_copys b \<le> 2 ^ 63"
  shows "\<exists>x xs y g'. sample_idxs b g batchsize timestep = Inr ((x, xs, y), g')"
proof -
  let ?B = "py_or batchsize (batch_size b)" and ?T = "py_or timestep (time_step b)"
  let ?start = "if horizon_length b = max_horizon b then pointer b - max_horizon b else 0"
  have lt: "?start < pointer b - ?T + 1"
  proof (cases "horizon_length b = max_horizon b")
    case True
    with assms(2) show ?thesis by simp
  next
    case False
    with assms(1) have "pointer b = horizon_length b"
      by (simp add: ring_inv_def)
    with False assms(2) show ?thesis by simp
  qed
  from assms(1) have p: "0 \<le> pointer b" "pointer b \<le> max_horizon b"
    by (simp_all add: ring_inv_def)
  have r1: "int64_range ?start (pointer b - ?T + 1)"
  proof (cases "horizon_length b = max_horizon b")
    case True
    with p assms(5,6) show ?thesis by (simp add: int64_range_def)
  next
    case False
    with p assms(5,6) show ?thesis by (simp add: int64_range_def)
  qed
  have r2: "int64_range 0 (n_copys b)"
    using assms(7) by (simp add: int64_range_def)
  from randint_ok [OF assms(3) lt r1, of g]
  obtain x g1 where x: "randint g ?start (pointer b - ?T + 1) ?B = Inr (x, g1)"
    by blast
  from randint_ok [OF assms(3,4) r2, of g1]
  obtain y g2 where y: "randint g1 0 (n_copys b) ?B = Inr (y, g2)"
    by blast
  from x y assms(2) show ?thesis
    by (simp add: sample_idxs_def Let_def)
qed

lemma sample_ok:
  assumes "wf_buffer b" "ring_inv b" "copies_ok b"
    and "py_or timestep (time_step b) \<le> horizon_length b"
    and "0 < py_or batchsize (batch_size b)" "0 < n_copys b"
    and "0 \<le> py_or timestep (time_step b)" "max_horizon b < 2 ^ 63" "n_copys b \<le> 2 ^ 63"
  shows "\<exists>samples g'. sample b g batchsize timestep = Inr (samples, b, g')"
proof -
  from sample_idxs_ok [OF assms(2,4,5,6,7,8,9)] obtain x xs y g'
    where si: "sample_idxs b g batchsize timestep = Inr ((x, xs, y), g')"
    by blast
  note I = sample_idxs_Inr [OF si]
  have xs_ok: "\<forall>row \<in> set xs. \<forall>i \<in> set row. 0 \<le> i \<and> i < max_horizon b"
  proof (intro ballI)
    fix row i assume "row \<in> set xs" "i \<in> set row"
    then obtain t xb where "t < nat (py_or timestep (time_step b))"
      and i: "i = (int t + xb) mod horizon_length b"
      by (auto simp: I(7))
    with I(1) have "0 < horizon_length b" by linarith
    then have "0 \<le> i \<and> i < horizon_length b"
      by (simp add: i)
    with assms(2) show "0 \<le> i \<and> i < max_horizon b"
      by (simp add: ring_inv_def)
  qed
  have "\<exists>r. sample_fields (xs, y) fs [] = Inr r" if fs: "fs \<in> snd ` set (buffer b)" for fs
  proof (rule sample_fields_ok, rule ballI)
    fix a assume a: "a \<in> snd ` set fs"
    from fs assms(1) have "wf_fields (nat (max_horizon b)) fs"
      by (auto simp: wf_buffer_def wf_store_def list_all_iff)
    with a have ra: "ring_array (nat (max_horizon b)) a"
      by (auto simp: wf_fields_def list_all_iff)
    from fs a assms(3) have "copy_axis (n_copys b) a"
      by (auto simp: copies_ok_def list_all_iff)
    with ra obtain n1 dims where sh: "shape a = nat (max_horizon b) # n1 # dims"
      and n1: "n_copys b \<le> int n1"
      by (auto simp: ring_array_def copy_axis_def split: list.splits)
    from assms(1) have "0 \<le> max_horizon b"
      by (simp add: wf_buffer_def)
    with xs_ok have c1: "\<forall>row \<in> set xs. \<forall>i \<in> set row. 0 \<le> i \<and> i < int (nat (max_horizon b))"
      by simp
    have c2: "\<forall>c \<in> set y. 0 \<le> c \<and> c < int n1"
    proof
      fix c assume "c \<in> set y"
      with I(6) have "0 \<le> c \<and> c < n_copys b" by blast
      with n1 show "0 \<le> c \<and> c < int n1" by linarith
    qed
    from sh c1 c2 show "\<exists>r. getitem a (xs, y) = Inr r"
      by (rule getitem_ok)
  qed
  then have "\<forall>fs \<in> snd ` set (buffer b). \<exists>r. sample_fields (xs, y) fs [] = Inr r"
    by blast
  from sample_keys_ok [OF this, of "[]"]
  obtain samples where "sample_keys (xs, y) (buffer b) [] = Inr samples"
    by blast
  with si show ?thesis
    by (simp add: sample_def)
qed

section \<open>The windows \<open>sample\<close> gathers\<close>




lemma scenario_wf: "wf_buffer full_buffer"
  by (simp add: full_buffer_def filled_def wf_buffer_def wf_store_def wf_fields_def wf_dict_def
      ring_array_def wf_array_def)

lemma scenario_ring: "ring_inv full_buffer"
  by (simp add: full_buffer_def filled_def ring_inv_def)

lemma scenario_copies: "copies_ok full_buffer"
  by (simp add: full_buffer_def filled_def copies_ok_def copy_axis_def)

lemma scenario_sample:
  "\<exists>samples g'. sample full_buffer g None None = Inr (samples, full_buffer, g')"
  by (rule sample_ok [OF scenario_wf scenario_ring scenario_copies])
     (simp_all add: full_buffer_def filled_def)


section \<open>The shape of the result\<close>

lemma sample_structure:
  assumes "wf_buffer b" "sample b g batchsize timestep = Inr (samples, b', g')"
  shows "map fst samples = map fst (buffer b)"
    and "map_of (buffer b) k = Some fs \<Longrightarrow> map fst (fields_of samples k) = map fst fs"
proof -
  from assms(2) obtain x xs y where sk: "sample_keys (xs, y) (buffer b) [] = Inr samples"
    by (rule sample_Inr)
  from assms(1) have d: "distinct (map fst (buffer b))"
    by (simp add: wf_buffer_def wf_store_def wf_dict_def)
  from sample_keys_names [OF sk] d show "map fst samples = map fst (buffer b)"
    by simp
  assume k: "map_of (buffer b) k = Some fs"
  from sample_keys_lookup [OF sk d, of k] k obtain rs
    where sf: "sample_fields (xs, y) fs [] = Inr rs" and mr: "map_of samples k = Some rs"
    by auto
  from wf_buffer_field(2) [OF assms(1) k] sample_fields_names [OF sf]
  have "map fst rs = map fst fs"
    by simp
  with mr show "map fst (fields_of samples k) = map fst fs"
    by (simp add: fields_of_def)
qed

lemma scenario_cell:
  assumes "i < 4" "c < 2" "prod_list dims = 1"
  shows "cell \<lparr>shape = 4 # 2 # dims, dtype = Int64,
               elems = [Some 0, Some 1, Some 10, Some 11, Some 20, Some 21, Some 30, Some 31]\<rparr> i c
           = [Some (10 * int i + int c)]"
proof -
  from assms have "i \<in> {0, 1, 2, 3}" "c \<in> {0, 1}"
    by auto
  with assms(3) show ?thesis
    by (auto simp: cell_def block_def)
qed


text \<open>
  C4. When \<open>sample\<close> returns for a window length \<open>T\<close> that is not negative, the result
  has the keys of the store, in the same order, each with the field names of the store, and
  every array of it has the shape \<open>[T, B] + field_dims\<close>, where \<open>field_dims\<close> is the shape of
  the stored array without its time and copy axes. In the scenario of the specification,
  after the four \<open>add\<close> calls, \<open>sample()\<close> returns whatever the random source does, every
  array of the result has shape \<open>[2, 4, ...]\<close>, and its entry at \<open>[t, j]\<close> is the stored entry,
  the marker \<open>10 * i + c\<close>, of the slot \<open>i = (x[j] + t) mod 4\<close> among the four stored slots and
  the copy \<open>c = y[j]\<close> among the two copies, for the draws \<open>x\<close> and \<open>y\<close> of that call: the same
  \<open>i\<close> and \<open>c\<close> in every field.
\<close>

theorem sample_result_shape:
  "(wf_buffer b \<and> sample b g batchsize timestep = Inr (samples, b', g') \<and>
    0 \<le> py_or timestep (time_step b) \<longrightarrow>
      map fst samples = map fst (buffer b) \<and>
      (\<forall>k fs. map_of (buffer b) k = Some fs \<longrightarrow>
         map fst (fields_of samples k) = map fst fs \<and>
         (\<forall>f a. map_of fs f = Some a \<longrightarrow>
            (\<exists>r. field_of samples k f = Some r \<and>
               map int (shape r) = py_or timestep (time_step b) # py_or batchsize (batch_size b)
                                     # map int (drop 2 (shape a)))))) \<and>
   (adds no_cast fresh_buffer [marked 0, marked 1, marked 2, marked 3] = Inr full_buffer \<and>
    (\<exists>res g1 x xs y. sample full_buffer g0 None None = Inr (res, full_buffer, g1) \<and>
       sample_idxs full_buffer g0 None None = Inr ((x, xs, y), g1) \<and>
       (\<forall>k fs f a. map_of (buffer full_buffer) k = Some fs \<and> map_of fs f = Some a \<longrightarrow>
          (\<exists>r. field_of res k f = Some r \<and> take 2 (shape r) = [2, 4] \<and>
             (\<forall>t < 2. \<forall>j < 4.
                0 \<le> y ! j \<and> y ! j < 2 \<and>
                cell r t j = cell a (nat ((int t + x ! j) mod 4)) (nat (y ! j)) \<and>
                cell r t j = [Some (10 * ((int t + x ! j) mod 4) + y ! j)])))))"
proof (intro conjI impI)
  assume a: "wf_buffer b \<and> sample b g batchsize timestep = Inr (samples, b', g') \<and>
    0 \<le> py_or timestep (time_step b)"
  then have w: "wf_buffer b" and s: "sample b g batchsize timestep = Inr (samples, b', g')"
    and T: "0 \<le> py_or timestep (time_step b)"
    by simp_all
  from s obtain x xs y where si: "sample_idxs b g batchsize timestep = Inr ((x, xs, y), g')"
    by (rule sample_Inr)
  from sample_idxs_Inr(2) [OF si] have B: "0 \<le> py_or batchsize (batch_size b)" .
  show "map fst samples = map fst (buffer b)"
    using w s by (rule sample_structure(1))
  show "\<forall>k fs. map_of (buffer b) k = Some fs \<longrightarrow>
         map fst (fields_of samples k) = map fst fs \<and>
         (\<forall>f a. map_of fs f = Some a \<longrightarrow>
            (\<exists>r. field_of samples k f = Some r \<and>
               map int (shape r) = py_or timestep (time_step b) # py_or batchsize (batch_size b)
                                     # map int (drop 2 (shape a))))"
  proof (intro allI impI conjI)
    fix k fs assume k: "map_of (buffer b) k = Some fs"
    show "map fst (fields_of samples k) = map fst fs"
      using w s k by (rule sample_structure(2))
    fix f a assume f: "map_of fs f = Some a"
    from sample_field_cells [OF w s si k f] obtain r
      where "field_of samples k f = Some r"
        "shape r = nat (py_or timestep (time_step b)) # nat (py_or batchsize (batch_size b))
                       # drop 2 (shape a)"
      by blast
    with T B show "\<exists>r. field_of samples k f = Some r \<and>
               map int (shape r) = py_or timestep (time_step b) # py_or batchsize (batch_size b)
                                     # map int (drop 2 (shape a))"
      by simp
  qed
next
  show "adds no_cast fresh_buffer [marked 0, marked 1, marked 2, marked 3] = Inr full_buffer"
    by (rule scenario_adds)
  from scenario_sample [of g0] obtain res g1
    where s: "sample full_buffer g0 None None = Inr (res, full_buffer, g1)"
    by blast
  then obtain x xs y where si: "sample_idxs full_buffer g0 None None = Inr ((x, xs, y), g1)"
    by (rule sample_Inr)
  note I = sample_idxs_Inr [OF si]
  have c: "py_or None (batch_size full_buffer) = 4" "py_or None (time_step full_buffer) = 2"
    "horizon_length full_buffer = 4" "n_copys full_buffer = 2"
    by (simp_all add: full_buffer_def filled_def)
  have "\<exists>r. field_of res k f = Some r \<and> take 2 (shape r) = [2, 4] \<and>
             (\<forall>t < 2. \<forall>j < 4.
                0 \<le> y ! j \<and> y ! j < 2 \<and>
                cell r t j = cell a (nat ((int t + x ! j) mod 4)) (nat (y ! j)) \<and>
                cell r t j = [Some (10 * ((int t + x ! j) mod 4) + y ! j)])"
    if k: "map_of (buffer full_buffer) k = Some fs" and f: "map_of fs f = Some a" for k fs f a
  proof -
    from sample_field_cells [OF scenario_wf s si k f, unfolded c] obtain r
      where r: "field_of res k f = Some r" and sh: "shape r = nat 2 # nat 4 # drop 2 (shape a)"
        and cells: "\<forall>t < nat 2. \<forall>j < nat 4.
               cell r t j = cell a (nat ((int t + x ! j) mod 4)) (nat (y ! j))"
      by blast
    from k f obtain dims where a: "a = \<lparr>shape = 4 # 2 # dims, dtype = Int64,
               elems = [Some 0, Some 1, Some 10, Some 11, Some 20, Some 21, Some 30, Some 31]\<rparr>"
      and dims: "prod_list dims = 1"
      by (auto simp: full_buffer_def filled_def split: if_splits)
    have "0 \<le> y ! j \<and> y ! j < 2 \<and>
          cell r t j = cell a (nat ((int t + x ! j) mod 4)) (nat (y ! j)) \<and>
          cell r t j = [Some (10 * ((int t + x ! j) mod 4) + y ! j)]"
      if t: "t < 2" and j: "j < 4" for t j
    proof -
      have i4: "nat ((int t + x ! j) mod 4) < 4"
        by simp
      from I(4,6) j have y: "0 \<le> y ! j \<and> y ! j < 2"
        unfolding c by (metis nth_mem nat_numeral nat_int of_nat_numeral)
      then have c2: "nat (y ! j) < 2"
        by linarith
      from cells t j have e1: "cell r t j = cell a (nat ((int t + x ! j) mod 4)) (nat (y ! j))"
        by simp
      also have "\<dots> = [Some (10 * int (nat ((int t + x ! j) mod 4)) + int (nat (y ! j)))]"
        unfolding a using i4 c2 dims by (rule scenario_cell)
      finally have "cell r t j = [Some (10 * ((int t + x ! j) mod 4) + y ! j)]"
        using y by simp
      with e1 y show ?thesis
        by blast
    qed
    then have body: "\<forall>t < 2. \<forall>j < 4.
          0 \<le> y ! j \<and> y ! j < 2 \<and>
          cell r t j = cell a (nat ((int t + x ! j) mod 4)) (nat (y ! j)) \<and>
          cell r t j = [Some (10 * ((int t + x ! j) mod 4) + y ! j)]"
      by blast
    from sh have "take 2 (shape r) = [2, 4]"
      by simp
    with r body show ?thesis
      by blast
  qed
  with s si show "\<exists>res g1 x xs y. sample full_buffer g0 None None = Inr (res, full_buffer, g1) \<and>
       sample_idxs full_buffer g0 None None = Inr ((x, xs, y), g1) \<and>
       (\<forall>k fs f a. map_of (buffer full_buffer) k = Some fs \<and> map_of fs f = Some a \<longrightarrow>
          (\<exists>r. field_of res k f = Some r \<and> take 2 (shape r) = [2, 4] \<and>
             (\<forall>t < 2. \<forall>j < 4.
                0 \<le> y ! j \<and> y ! j < 2 \<and>
                cell r t j = cell a (nat ((int t + x ! j) mod 4)) (nat (y ! j)) \<and>
                cell r t j = [Some (10 * ((int t + x ! j) mod 4) + y ! j)])))"
    by blast
qed

theorem sample_result_shape_witness:
  "wf_buffer full_buffer \<and> 0 \<le> py_or None (time_step full_buffer) \<and>
   (\<exists>samples g'. sample full_buffer (\<lambda>i. 0) None None = Inr (samples, full_buffer, g') \<and>
      map fst samples = [''agent_0'', ''global''] \<and>
      map fst (fields_of samples ''agent_0'') = [''obs'', ''reward''] \<and>
      (\<exists>r. field_of samples ''agent_0'' ''obs'' = Some r \<and> map int (shape r) = [2, 4, 1]))"
proof -
  let ?es = "[Some 0, Some 1, Some 10, Some 11, Some 20, Some 21, Some 30, Some (31::int)]"
  let ?fs = "[(''obs'', \<lparr>shape = [4, 2, 1], dtype = Int64, elems = ?es\<rparr>),
              (''reward'', \<lparr>shape = [4, 2], dtype = Int64, elems = ?es\<rparr>)]"
  from scenario_sample [of "\<lambda>i. 0"] obtain samples g'
    where s: "sample full_buffer (\<lambda>i. 0) None None = Inr (samples, full_buffer, g')"
    by blast
  have T: "0 \<le> py_or None (time_step full_buffer)"
    by (simp add: full_buffer_def filled_def)
  have c: "py_or None (batch_size full_buffer) = 4" "py_or None (time_step full_buffer) = 2"
    by (simp_all add: full_buffer_def filled_def)
  have m: "map_of (buffer full_buffer) ''agent_0'' = Some ?fs"
    "map fst (buffer full_buffer) = [''agent_0'', ''global'']"
    by (simp_all add: full_buffer_def filled_def)
  from sample_result_shape [of full_buffer "\<lambda>i. 0" None None samples full_buffer g', THEN conjunct1]
    scenario_wf s T
  have keys: "map fst samples = map fst (buffer full_buffer)"
    and fields: "\<forall>k fs. map_of (buffer full_buffer) k = Some fs \<longrightarrow>
         map fst (fields_of samples k) = map fst fs \<and>
         (\<forall>f a. map_of fs f = Some a \<longrightarrow>
            (\<exists>r. field_of samples k f = Some r \<and>
               map int (shape r) = 2 # 4 # map int (drop 2 (shape a))))"
    unfolding c by blast+
  from fields [rule_format, OF m(1)]
  have f1: "map fst (fields_of samples ''agent_0'') = [''obs'', ''reward'']"
    and f2: "\<forall>f a. map_of ?fs f = Some a \<longrightarrow>
            (\<exists>r. field_of samples ''agent_0'' f = Some r \<and>
               map int (shape r) = 2 # 4 # map int (drop 2 (shape a)))"
    by simp_all
  from f2 [rule_format, of "''obs''" "\<lparr>shape = [4, 2, 1], dtype = Int64, elems = ?es\<rparr>"]
  have "\<exists>r. field_of samples ''agent_0'' ''obs'' = Some r \<and> map int (shape r) = [2, 4, 1]"
    by simp
  with s keys m(2) f1 T scenario_wf show ?thesis
    by auto
qed

section \<open>Mismatched writes\<close>






section \<open>An \<open>add\<close> that raises\<close>

lemma add_fields_append:
  "add_fields cast mh p fs (xs @ ys) =
     (case add_fields cast mh p fs xs of Inl r \<Rightarrow> Inl r | Inr fs1 \<Rightarrow> add_fields cast mh p fs1 ys)"
proof (induction xs arbitrary: fs)
  case Nil
  then show ?case by simp
next
  case (Cons kv xs)
  obtain k v where kv: "kv = (k, v)" by (cases kv)
  show ?case
    unfolding kv append_Cons add_fields_step
    by (simp add: Cons.IH split: sum.splits)
qed

lemma add_keys_append:
  "add_keys cast mh p buf (xs @ ys) =
     (case add_keys cast mh p buf xs of Inl r \<Rightarrow> Inl r | Inr buf1 \<Rightarrow> add_keys cast mh p buf1 ys)"
proof (induction xs arbitrary: buf)
  case Nil
  then show ?case by simp
next
  case (Cons kv xs)
  obtain k v where kv: "kv = (k, v)" by (cases kv)
  show ?case
    unfolding kv append_Cons add_keys_step
    by (simp add: Cons.IH split: sum.splits prod.splits)
qed

lemma add_keys_partial:
  assumes "add_keys cast mh p bufA ((k, fpre @ frest) # post) = r"
    and "r = Inr buf' \<or> r = Inl (e, buf')"
    and "add_fields cast mh p (fields_of bufA k) fpre = Inr fsA"
    and "k \<notin> fst ` set post"
  shows "\<exists>fsX. map_of buf' k = Some fsX \<and>
           (\<forall>f0. f0 \<notin> fst ` set frest \<longrightarrow> map_of fsX f0 = map_of fsA f0)"
    and "k0 \<noteq> k \<Longrightarrow> k0 \<notin> fst ` set post \<Longrightarrow> map_of buf' k0 = map_of bufA k0"
proof -
  have q: "add_fields cast mh p (fields_of bufA k) (fpre @ frest) = add_fields cast mh p fsA frest"
    by (simp add: add_fields_append assms(3))
  show "\<exists>fsX. map_of buf' k = Some fsX \<and>
           (\<forall>f0. f0 \<notin> fst ` set frest \<longrightarrow> map_of fsX f0 = map_of fsA f0)"
  proof (cases "add_fields cast mh p fsA frest")
    case (Inl ef)
    obtain e' fs' where ef: "ef = (e', fs')" by (cases ef)
    from Inl assms(1,2) have "buf' = AList.update k fs' bufA"
      unfolding add_keys_step q ef by auto
    moreover have "map_of fs' f0 = map_of fsA f0" if "f0 \<notin> fst ` set frest" for f0
      using Inl [unfolded ef] that by (rule add_fields_frame) simp
    ultimately show ?thesis
      by (simp add: AList.update_conv')
  next
    case (Inr fsB)
    with assms(1) have "add_keys cast mh p (AList.update k fsB bufA) post = r"
      unfolding add_keys_step q by simp
    from add_keys_frame [OF this assms(4,2)] have "map_of buf' k = Some fsB"
      by (simp add: AList.update_conv')
    moreover have "map_of fsB f0 = map_of fsA f0" if "f0 \<notin> fst ` set frest" for f0
      using Inr that by (rule add_fields_frame) simp
    ultimately show ?thesis
      by simp
  qed
  assume ne: "k0 \<noteq> k" and np: "k0 \<notin> fst ` set post"
  then have "k0 \<notin> fst ` set ((k, fpre @ frest) # post)"
    by simp
  from add_keys_frame [OF assms(1) this assms(2)] show "map_of buf' k0 = map_of bufA k0" .
qed

text \<open>
  C9. \<open>add\<close> is not transactional. Let a call raise while it works on the fields \<open>frest\<close>
  of the key \<open>k\<close> or on a later key, the part of its data before that point being the keys
  \<open>pre\<close> and the fields \<open>fpre\<close> of \<open>k\<close>, a part that \<open>add\<close> stores without an exception when it
  is given alone. Then the raising call leaves the pointer and the fill counter as they
  were, although every field of that part is stored in the buffer exactly as the complete
  call of the part alone stores it, which does advance the pointer.
\<close>

theorem add_raise_keeps_partial_writes:
  assumes "add cast b (pre @ (k, fpre @ frest) # post) = Inl (e, b')"
    and "add cast b (pre @ [(k, fpre)]) = Inr b1"
    and "distinct (map fst (pre @ (k, fpre @ frest) # post))"
    and "distinct (map fst (fpre @ frest))"
  shows "pointer b' = pointer b \<and> horizon_length b' = horizon_length b \<and>
         pointer b1 = (pointer b + 1) mod max_horizon b \<and>
         (\<forall>k0 f0 v0. field_of (pre @ [(k, fpre)]) k0 f0 = Some v0 \<longrightarrow>
            field_of (buffer b') k0 f0 = field_of (buffer b1) k0 f0)"
proof -
  let ?mh = "max_horizon b" and ?p = "pointer b"
  from assms(2) have k1: "add_keys cast ?mh ?p (buffer b) (pre @ [(k, fpre)]) = Inr (buffer b1)"
    and p1: "pointer b1 = (?p + 1) mod ?mh"
    by (auto elim!: add_Inr)
  from k1 obtain bufA where A: "add_keys cast ?mh ?p (buffer b) pre = Inr bufA"
    and A1: "add_keys cast ?mh ?p bufA [(k, fpre)] = Inr (buffer b1)"
    unfolding add_keys_append by (auto split: sum.splits)
  from A1 obtain fsA where fA: "add_fields cast ?mh ?p (fields_of bufA k) fpre = Inr fsA"
    and b1: "buffer b1 = AList.update k fsA bufA"
    unfolding add_keys_step by (auto split: sum.splits)
  from assms(1) obtain buf' where b': "b' = b\<lparr>buffer := buf'\<rparr>"
    and r: "add_keys cast ?mh ?p (buffer b) (pre @ (k, fpre @ frest) # post) = Inl (e, buf') \<or>
            add_keys cast ?mh ?p (buffer b) (pre @ (k, fpre @ frest) # post) = Inr buf'"
    by (rule add_Inl)
  have q: "add_keys cast ?mh ?p (buffer b) (pre @ (k, fpre @ frest) # post)
             = add_keys cast ?mh ?p bufA ((k, fpre @ frest) # post)"
    by (simp add: add_keys_append A)
  from r have r': "add_keys cast ?mh ?p bufA ((k, fpre @ frest) # post) = Inr buf' \<or>
                   add_keys cast ?mh ?p bufA ((k, fpre @ frest) # post) = Inl (e, buf')"
    unfolding q by blast
  from assms(3) have kp: "k \<notin> fst ` set post" and kpre: "k \<notin> fst ` set pre"
    and disj: "fst ` set pre \<inter> fst ` set post = {}"
    by auto
  note P = add_keys_partial [OF refl r' fA kp]
  have "field_of (buffer b') k0 f0 = field_of (buffer b1) k0 f0"
    if v0: "field_of (pre @ [(k, fpre)]) k0 f0 = Some v0" for k0 f0 v0
  proof (cases "k0 = k")
    case True
    from kpre have "map_of pre k = None"
      by (simp add: map_of_eq_None_iff)
    with v0 True have "map_of fpre f0 = Some v0"
      by (simp add: field_of_def fields_of_def map_add_def)
    then have "f0 \<in> fst ` set fpre"
      by (metis map_of_SomeD image_eqI fst_conv)
    with assms(4) have "f0 \<notin> fst ` set frest"
      by auto
    with P(1) obtain fsX where "map_of buf' k = Some fsX" "map_of fsX f0 = map_of fsA f0"
      by blast
    with True show ?thesis
      by (simp add: b' b1 field_of_def fields_of_def AList.update_conv')
  next
    case False
    with v0 have "map_of pre k0 \<noteq> None"
      by (auto simp: field_of_def fields_of_def map_add_def split: option.splits)
    then have "k0 \<in> fst ` set pre"
      by (simp add: map_of_eq_None_iff)
    with disj have "k0 \<notin> fst ` set post"
      by auto
    with P(2) False have "map_of buf' k0 = map_of bufA k0"
      by blast
    with False show ?thesis
      by (simp add: b' b1 field_of_def fields_of_def AList.update_conv')
  qed
  with p1 b' show ?thesis
    by simp
qed

lemma half_bad_raises: "add no_cast first_buffer half_bad = Inl (ValueError, partly_written 1 1)"
  by code_simp

lemma half_bad_part:
  "add no_cast first_buffer
     [(''agent_0'', [(''obs'', \<lparr>shape = [2, 1], dtype = Int64, elems = [Some 10, Some 11]\<rparr>)])]
   = Inr (partly_written 2 2)"
  by code_simp

theorem add_raise_keeps_partial_writes_witness:
  "add no_cast first_buffer half_bad = Inl (ValueError, partly_written 1 1) \<and>
   add no_cast first_buffer
     [(''agent_0'', [(''obs'', \<lparr>shape = [2, 1], dtype = Int64, elems = [Some 10, Some 11]\<rparr>)])]
     = Inr (partly_written 2 2) \<and>
   pointer (partly_written 1 1) = pointer first_buffer \<and>
   horizon_length (partly_written 1 1) = horizon_length first_buffer \<and>
   pointer (partly_written 2 2) = (pointer first_buffer + 1) mod max_horizon first_buffer \<and>
   field_of (buffer (partly_written 1 1)) ''agent_0'' ''obs''
     = field_of (buffer (partly_written 2 2)) ''agent_0'' ''obs'' \<and>
   field_of (buffer (partly_written 1 1)) ''agent_0'' ''obs''
     \<noteq> field_of (buffer first_buffer) ''agent_0'' ''obs''"
proof -
  let ?obs = "(''obs'', \<lparr>shape = [2, 1], dtype = Int64, elems = [Some 10, Some (11::int)]\<rparr>)"
  let ?reward = "(''reward'', \<lparr>shape = [3], dtype = Int64, elems = [Some 10, Some 11, Some (12::int)]\<rparr>)"
  have r: "add no_cast first_buffer ([] @ (''agent_0'', [?obs] @ [?reward]) # [])
             = Inl (ValueError, partly_written 1 1)"
    using half_bad_raises by (simp add: half_bad_def)
  have p: "add no_cast first_buffer ([] @ [(''agent_0'', [?obs])]) = Inr (partly_written 2 2)"
    using half_bad_part by simp
  have dk: "distinct (map fst ([] @ (''agent_0'', [?obs] @ [?reward]) # []))"
    by simp
  have df: "distinct (map fst ([?obs] @ [?reward]))"
    by simp
  have f: "field_of ([] @ [(''agent_0'', [?obs])]) ''agent_0'' ''obs'' = Some (snd ?obs)"
    by (simp add: field_of_def fields_of_def)
  have n: "field_of (buffer (partly_written 1 1)) ''agent_0'' ''obs''
             \<noteq> field_of (buffer first_buffer) ''agent_0'' ''obs''"
    by (simp add: partly_written_def first_buffer_def filled_def field_of_def fields_of_def)
  note T = add_raise_keeps_partial_writes [OF r p dk df]
  from T have c: "pointer (partly_written 1 1) = pointer first_buffer"
    "horizon_length (partly_written 1 1) = horizon_length first_buffer"
    "pointer (partly_written 2 2) = (pointer first_buffer + 1) mod max_horizon first_buffer"
    by blast+
  from T have "\<forall>k0 f0 v0. field_of ([] @ [(''agent_0'', [?obs])]) k0 f0 = Some v0 \<longrightarrow>
            field_of (buffer (partly_written 1 1)) k0 f0 = field_of (buffer (partly_written 2 2)) k0 f0"
    by blast
  from this [rule_format, OF f]
  have e: "field_of (buffer (partly_written 1 1)) ''agent_0'' ''obs''
             = field_of (buffer (partly_written 2 2)) ''agent_0'' ''obs''" .
  from half_bad_raises half_bad_part c e n show ?thesis
    by blast
qed

section \<open>A field that appears late\<close>

lemma block_replicate: "(j + 1) * sz \<le> n \<Longrightarrow> block (replicate n x) sz j = replicate sz x"
  by (simp add: block_def min_def)

lemma block_block:
  assumes "c < n1"
  shows "block (block es (n1 * d) i) d c = block es d (i * n1 + c)"
proof -
  from assms have "(c + 1) * d \<le> n1 * d"
    by (metis Suc_eq_plus1 Suc_leI mult_le_mono1)
  then have "d \<le> n1 * d - c * d"
    by (simp add: algebra_simps)
  then have "take d (drop (c * d) (take (n1 * d) (drop (i * (n1 * d)) es)))
               = take d (drop (c * d + i * (n1 * d)) es)"
    by (simp add: drop_take min_def)
  then show ?thesis
    by (simp add: block_def algebra_simps)
qed

lemma cell_in_slot:
  assumes "shape a = n0 # n1 # dims" "c < n1"
  shows "cell a i c = block (slot a i) (prod_list dims) c"
  using assms by (simp add: cell_def slot_def block_block)

lemma sample_field_bounds:
  assumes "wf_buffer b" "sample b g batchsize timestep = Inr (samples, b', g')"
    and "sample_idxs b g batchsize timestep = Inr ((x, xs, y), g'')"
    and "map_of (buffer b) k = Some fs" "map_of fs f = Some a"
    and "t < nat (py_or timestep (time_step b))" "j < nat (py_or batchsize (batch_size b))"
  shows "\<exists>n0 n1 dims. shape a = n0 # n1 # dims \<and>
           0 \<le> (int t + x ! j) mod horizon_length b \<and>
           nat ((int t + x ! j) mod horizon_length b) < n0 \<and> nat (y ! j) < n1"
proof -
  let ?B = "py_or batchsize (batch_size b)" and ?T = "py_or timestep (time_step b)"
  from assms(2,3) have sk: "sample_keys (xs, y) (buffer b) [] = Inr samples"
    by (auto elim!: sample_Inr)
  note I = sample_idxs_Inr [OF assms(3)]
  note W = wf_buffer_field [OF assms(1,4)]
  from sample_keys_lookup [OF sk W(1), of k] assms(4) obtain rs
    where sf: "sample_fields (xs, y) fs [] = Inr rs"
    by auto
  from sample_fields_lookup [OF sf W(2), of f] assms(5) obtain r
    where gi: "getitem a (xs, y) = Inr r"
    by auto
  from gi obtain n0 n1 dims where sh: "shape a = n0 # n1 # dims"
    by (rule getitem_Inr)
  have wa: "wf_array a"
    using W(3) [OF assms(5)] by (simp add: ring_array_def)
  have rows: "\<forall>row \<in> set xs. length row = length y"
    by (auto simp: I(7) I(3) I(4))
  have "t < length xs" "j < length y"
    using assms(6,7) by (simp_all add: I(7) I(4))
  with getitem_cells [OF gi wa rows] obtain i c
    where i: "norm_index (xs ! t ! j) (shape a ! 0) = Inr i"
      and c: "norm_index (y ! j) (shape a ! 1) = Inr c"
    by blast
  have xtj: "xs ! t ! j = (int t + x ! j) mod horizon_length b"
    using assms(6,7) by (simp add: I(7) I(3))
  from assms(6) I(1) have "0 < horizon_length b" by linarith
  then have nn: "0 \<le> xs ! t ! j"
    by (simp add: xtj)
  with i have "i = nat (xs ! t ! j)"
    by (rule norm_index_nat)
  moreover have "0 \<le> y ! j"
    using I(6) assms(7) I(4) by (metis nth_mem)
  with c have "c = nat (y ! j)"
    by (rule norm_index_nat)
  moreover from i c sh have "i < n0" "c < n1"
    by (auto dest: norm_index_less)
  ultimately show ?thesis
    using sh nn xtj by simp
qed

lemma field_of_SomeD:
  assumes "field_of buf k f = Some a"
  obtains fs where "map_of buf k = Some fs" "map_of fs f = Some a"
  using assms by (auto simp: field_of_def fields_of_def split: option.splits)

lemma fresh_field_slots:
  assumes "wf_buffer b" "wf_data data" "add cast b data = Inr b1" "0 \<le> pointer b"
    and "field_of data k f = Some v" "field_of (buffer b) k f = None"
  shows "\<exists>a. field_of (buffer b1) k f = Some a \<and> shape a = nat (max_horizon b) # shape v \<and>
           (\<forall>i < nat (max_horizon b). int i \<noteq> pointer b \<longrightarrow>
               slot a i = replicate (prod_list (shape v)) None)"
proof -
  let ?n = "nat (max_horizon b)" and ?sz = "prod_list (shape v)"
  from add_field_written [OF assms(3,2,5)] obtain a0 a
    where fs: "field_store (max_horizon b) (fields_of (buffer b) k) f v = Inr a0"
      and st: "setitem cast a0 (pointer b) v = Inr a"
      and fo: "field_of (buffer b1) k f = Some a"
    by blast
  from assms(1) have mh: "0 \<le> max_horizon b"
    by (simp add: wf_buffer_def)
  from assms(6) have "map_of (fields_of (buffer b) k) f = None"
    by (simp add: field_of_def)
  with fs mh have a0: "a0 = \<lparr>shape = ?n # shape v, dtype = dtype v,
                              elems = replicate (?n * ?sz) None\<rparr>"
    by (simp add: field_store_def np_empty_ring)
  then have ra: "ring_array ?n a0"
    by (simp add: ring_array_def wf_array_def)
  have wv: "wf_array v"
    using assms(2,5) by (rule wf_data_field)
  from setitem_slot [OF ra wv st] obtain i0
    where i0: "norm_index (pointer b) ?n = Inr i0"
      and other: "\<forall>j. j \<noteq> i0 \<longrightarrow> slot a j = slot a0 j"
    by blast
  from i0 assms(4) have i0': "i0 = nat (pointer b)"
    by (rule norm_index_nat)
  have "slot a i = replicate ?sz None" if "i < ?n" "int i \<noteq> pointer b" for i
  proof -
    from that(2) assms(4) i0' have "i \<noteq> i0"
      by auto
    with other have "slot a i = slot a0 i"
      by simp
    also have "\<dots> = block (replicate (?n * ?sz) None) ?sz i"
      by (simp add: slot_def a0)
    also have "\<dots> = replicate ?sz None"
      using that(1) by (intro block_replicate) (metis Suc_eq_plus1 Suc_leI mult_le_mono1)
    finally show ?thesis .
  qed
  moreover from setitem_shape [OF st] a0 have "shape a = ?n # shape v"
    by simp
  ultimately show ?thesis
    using fo by blast
qed

text \<open>
  C10. When a call of \<open>add\<close> brings a field that the buffer does not have yet, the array
  of that field is allocated with \<open>max_horizon\<close> time slots of which only the slot at the
  pointer is written: every other slot holds only uninitialised elements. A later
  \<open>sample\<close> returns them: wherever its time index is not the pointer of that call, the
  entry of the result for that field is uninitialised.
\<close>

theorem late_field_uninitialised:
  assumes "wf_buffer b" and "wf_data data" and "add cast b data = Inr b1" and "0 \<le> pointer b"
    and "field_of data k f = Some v" and "field_of (buffer b) k f = None"
  shows "\<exists>a. field_of (buffer b1) k f = Some a \<and> shape a = nat (max_horizon b) # shape v \<and>
           (\<forall>i < nat (max_horizon b). int i \<noteq> pointer b \<longrightarrow>
               slot a i = replicate (prod_list (shape v)) None) \<and>
           (\<forall>g batchsize timestep samples b2 g' x xs y.
               sample b1 g batchsize timestep = Inr (samples, b2, g') \<and>
               sample_idxs b1 g batchsize timestep = Inr ((x, xs, y), g') \<longrightarrow>
               (\<exists>r. field_of samples k f = Some r \<and>
                  (\<forall>t < nat (py_or timestep (time_step b1)).
                   \<forall>j < nat (py_or batchsize (batch_size b1)).
                     (int t + x ! j) mod horizon_length b1 \<noteq> pointer b \<longrightarrow>
                     cell r t j = replicate (prod_list (drop 1 (shape v))) None)))"
proof -
  let ?n = "nat (max_horizon b)"
  from fresh_field_slots [OF assms] obtain a
    where fo: "field_of (buffer b1) k f = Some a" and sh: "shape a = ?n # shape v"
      and un: "\<forall>i < ?n. int i \<noteq> pointer b \<longrightarrow> slot a i = replicate (prod_list (shape v)) None"
    by blast
  from fo obtain fs where k1: "map_of (buffer b1) k = Some fs" and f1: "map_of fs f = Some a"
    by (rule field_of_SomeD)
  have w1: "wf_buffer b1"
    using assms(3) _ assms(1,2) by (rule add_wf) simp
  have "\<exists>r. field_of samples k f = Some r \<and>
          (\<forall>t < nat (py_or timestep (time_step b1)).
           \<forall>j < nat (py_or batchsize (batch_size b1)).
             (int t + x ! j) mod horizon_length b1 \<noteq> pointer b \<longrightarrow>
             cell r t j = replicate (prod_list (drop 1 (shape v))) None)"
    if s: "sample b1 g batchsize timestep = Inr (samples, b2, g')"
      and si: "sample_idxs b1 g batchsize timestep = Inr ((x, xs, y), g')"
    for g batchsize timestep samples b2 g' x xs y
  proof -
    from sample_field_cells [OF w1 s si k1 f1] obtain r
      where r: "field_of samples k f = Some r"
        and cells: "\<forall>t < nat (py_or timestep (time_step b1)).
               \<forall>j < nat (py_or batchsize (batch_size b1)).
                 cell r t j = cell a (nat ((int t + x ! j) mod horizon_length b1)) (nat (y ! j))"
      by blast
    have "cell r t j = replicate (prod_list (drop 1 (shape v))) None"
      if t: "t < nat (py_or timestep (time_step b1))"
        and j: "j < nat (py_or batchsize (batch_size b1))"
        and ne: "(int t + x ! j) mod horizon_length b1 \<noteq> pointer b" for t j
    proof -
      let ?i = "nat ((int t + x ! j) mod horizon_length b1)" and ?c = "nat (y ! j)"
      from sample_field_bounds [OF w1 s si k1 f1 t j] sh obtain n1 dims
        where sv: "shape v = n1 # dims" and nn: "0 \<le> (int t + x ! j) mod horizon_length b1"
          and i: "?i < ?n" and c: "?c < n1"
        by auto
      from nn ne have "int ?i \<noteq> pointer b"
        by simp
      with un i have sl: "slot a ?i = replicate (prod_list (shape v)) None"
        by blast
      from cells t j have "cell r t j = cell a ?i ?c"
        by blast
      also have "\<dots> = block (slot a ?i) (prod_list dims) ?c"
        using sh sv c by (intro cell_in_slot) simp_all
      also have "\<dots> = replicate (prod_list dims) None"
      proof -
        from c have "(?c + 1) * prod_list dims \<le> n1 * prod_list dims"
          by (metis Suc_eq_plus1 Suc_leI mult_le_mono1)
        then have "(?c + 1) * prod_list dims \<le> prod_list (n1 # dims)"
          by simp
        then show ?thesis
          unfolding sl sv by (rule block_replicate)
      qed
      finally show ?thesis
        by (simp add: sv)
    qed
    with r show ?thesis
      by blast
  qed
  with fo sh un show ?thesis
    by blast
qed

lemma late_add: "add no_cast first_buffer late = Inr late_buffer"
  by code_simp

lemma first_buffer_wf: "wf_buffer first_buffer"
  by (simp add: first_buffer_def filled_def wf_buffer_def wf_store_def wf_fields_def wf_dict_def
      ring_array_def wf_array_def)

lemma late_wf: "wf_data late"
  by (simp add: late_def wf_data_def wf_record_def wf_dict_def wf_array_def)

lemma late_buffer_sample:
  "\<exists>samples g'. sample late_buffer g None None = Inr (samples, late_buffer, g')"
proof (rule sample_ok)
  show "wf_buffer late_buffer"
    by (simp add: late_buffer_def wf_buffer_def wf_store_def wf_fields_def wf_dict_def
        ring_array_def wf_array_def)
  show "ring_inv late_buffer"
    by (simp add: late_buffer_def ring_inv_def)
  show "copies_ok late_buffer"
    by (simp add: late_buffer_def copies_ok_def copy_axis_def)
qed (simp_all add: late_buffer_def)

theorem late_field_uninitialised_witness:
  "wf_buffer first_buffer \<and> wf_data late \<and> add no_cast first_buffer late = Inr late_buffer \<and>
   0 \<le> pointer first_buffer \<and>
   field_of late ''agent_0'' ''done''
     = Some \<lparr>shape = [2], dtype = Int64, elems = [Some 10, Some 11]\<rparr> \<and>
   field_of (buffer first_buffer) ''agent_0'' ''done'' = None \<and>
   (\<exists>samples g' r. sample late_buffer (\<lambda>i. 0) None None = Inr (samples, late_buffer, g') \<and>
      field_of samples ''agent_0'' ''done'' = Some r \<and> cell r 0 0 = [None])"
proof -
  let ?v = "\<lparr>shape = [2], dtype = Int64, elems = [Some 10, Some (11::int)]\<rparr>"
  have p: "0 \<le> pointer first_buffer" "pointer first_buffer = 1"
    by (simp_all add: first_buffer_def filled_def)
  have fv: "field_of late ''agent_0'' ''done'' = Some ?v"
    by (simp add: late_def field_of_def fields_of_def)
  have fn: "field_of (buffer first_buffer) ''agent_0'' ''done'' = None"
    by (simp add: first_buffer_def filled_def field_of_def fields_of_def)
  from late_buffer_sample [of "\<lambda>i. 0"] obtain samples g'
    where s: "sample late_buffer (\<lambda>i. 0) None None = Inr (samples, late_buffer, g')"
    by blast
  then obtain x xs y where si: "sample_idxs late_buffer (\<lambda>i. 0) None None = Inr ((x, xs, y), g')"
    by (rule sample_Inr)
  have c: "py_or None (batch_size late_buffer) = 4" "py_or None (time_step late_buffer) = 2"
    "horizon_length late_buffer = 2" "pointer late_buffer = 2" "max_horizon late_buffer = 4"
    by (simp_all add: late_buffer_def)
  note I = sample_idxs_Inr [OF si, unfolded c]
  from I(3) have "x ! 0 \<in> set x"
    by (intro nth_mem) simp
  with I(5) have x0: "x ! 0 = 0"
    by auto
  from late_field_uninitialised [OF first_buffer_wf late_wf late_add p(1) fv fn]
  have "\<forall>g batchsize timestep samples b2 g' x xs y.
               sample late_buffer g batchsize timestep = Inr (samples, b2, g') \<and>
               sample_idxs late_buffer g batchsize timestep = Inr ((x, xs, y), g') \<longrightarrow>
               (\<exists>r. field_of samples ''agent_0'' ''done'' = Some r \<and>
                  (\<forall>t < nat (py_or timestep (time_step late_buffer)).
                   \<forall>j < nat (py_or batchsize (batch_size late_buffer)).
                     (int t + x ! j) mod horizon_length late_buffer \<noteq> pointer first_buffer \<longrightarrow>
                     cell r t j = replicate (prod_list (drop 1 (shape ?v))) None))"
    by blast
  from this [rule_format, of "\<lambda>i. 0" None None samples late_buffer g' x xs y] s si
  obtain r where r: "field_of samples ''agent_0'' ''done'' = Some r"
    and cells: "\<forall>t < nat 2. \<forall>j < nat 4.
                     (int t + x ! j) mod 2 \<noteq> 1 \<longrightarrow>
                     cell r t j = replicate (prod_list (drop 1 (shape ?v))) None"
    unfolding c p(2) by blast
  from cells [rule_format, of 0 0] x0 have "cell r 0 0 = [None]"
    by simp
  with first_buffer_wf late_wf late_add p(1) fv fn s r show ?thesis
    by blast
qed

section \<open>Runs of calls with consistent shapes\<close>

lemma fits_of_conforms:
  assumes "stored_conforms sch buf" "conforms sch d"
  shows "fits buf d"
  unfolding fits_def fits_fields_def list_all_iff
proof (intro ballI)
  fix kv fv assume kv: "kv \<in> set d"
  obtain k vs where kvs: "kv = (k, vs)" by (cases kv)
  show "case kv of (k, vs) \<Rightarrow> \<forall>x \<in> set vs. case x of (f, v) \<Rightarrow>
          (case map_of (fields_of buf k) f of None \<Rightarrow> True | Some a \<Rightarrow> tl (shape a) = shape v)"
    unfolding kvs prod.case
  proof
    fix x assume x: "x \<in> set vs"
    obtain f v where fv: "x = (f, v)" by (cases x)
    from assms(2) kv x have sv: "sch k f = Some (shape v)"
      by (auto simp: conforms_def list_all_iff kvs fv)
    show "case x of (f, v) \<Rightarrow>
          (case map_of (fields_of buf k) f of None \<Rightarrow> True | Some a \<Rightarrow> tl (shape a) = shape v)"
      unfolding fv prod.case
    proof (cases "map_of (fields_of buf k) f")
      case None
      then show "case map_of (fields_of buf k) f of None \<Rightarrow> True
                 | Some a \<Rightarrow> tl (shape a) = shape v"
        by simp
    next
      case (Some a)
      then obtain fs where "map_of buf k = Some fs" "map_of fs f = Some a"
        by (auto simp: fields_of_def split: option.splits)
      then have "(k, fs) \<in> set buf" "(f, a) \<in> set fs"
        by (auto dest: map_of_SomeD)
      with assms(1) have "sch k f = Some (tl (shape a))"
        by (auto simp: stored_conforms_def list_all_iff)
      with sv Some show "case map_of (fields_of buf k) f of None \<Rightarrow> True
                 | Some a \<Rightarrow> tl (shape a) = shape v"
        by simp
    qed
  qed
qed

lemma add_field_kept:
  assumes "add cast b data = Inr b'" "wf_data data" "field_of data k f = None"
  shows "field_of (buffer b') k f = field_of (buffer b) k f"
proof -
  from assms(1) have ak: "add_keys cast (max_horizon b) (pointer b) (buffer b) data = Inr (buffer b')"
    by (auto elim!: add_Inr)
  from assms(2) have dd: "distinct (map fst data)"
    by (simp add: wf_data_def wf_dict_def)
  note L = add_keys_lookup [OF ak dd, of k]
  show ?thesis
  proof (cases "map_of data k")
    case None
    with L show ?thesis
      by (simp add: field_of_def fields_of_def)
  next
    case (Some vs)
    with L obtain fs'
      where af: "add_fields cast (max_horizon b) (pointer b) (fields_of (buffer b) k) vs = Inr fs'"
        and mb: "map_of (buffer b') k = Some fs'"
      by auto
    have "vs \<in> snd ` set data"
      using Some by (metis map_of_SomeD image_eqI snd_conv)
    with assms(2) have df: "distinct (map fst vs)"
      by (auto simp: wf_data_def wf_record_def wf_dict_def list_all_iff)
    from assms(3) Some have "map_of vs f = None"
      by (simp add: field_of_def fields_of_def)
    with add_fields_lookup [OF af df, of f] have "map_of fs' f = map_of (fields_of (buffer b) k) f"
      by simp
    with mb show ?thesis
      by (simp add: field_of_def fields_of_def)
  qed
qed

lemma stored_conformsI:
  assumes "\<And>k f a. field_of buf k f = Some a \<Longrightarrow> sch k f = Some (tl (shape a))"
    and "wf_store n buf"
  shows "stored_conforms sch buf"
  unfolding stored_conforms_def list_all_iff
proof (intro ballI)
  fix kv assume kv: "kv \<in> set buf"
  obtain k fs where kfs: "kv = (k, fs)" by (cases kv)
  from assms(2) have "distinct (map fst buf)"
    by (simp add: wf_store_def wf_dict_def)
  with kv have mk: "map_of buf k = Some fs"
    by (simp add: kfs)
  from assms(2) kv have "distinct (map fst fs)"
    by (auto simp: wf_store_def wf_fields_def wf_dict_def list_all_iff kfs)
  then have "sch k f = Some (tl (shape a))" if "(f, a) \<in> set fs" for f a
    using that mk by (intro assms(1)) (simp add: field_of_def fields_of_def)
  then show "case kv of (k, fs) \<Rightarrow> \<forall>x \<in> set fs. case x of (f, a) \<Rightarrow> sch k f = Some (tl (shape a))"
    by (auto simp: kfs)
qed

lemma stored_conformsD:
  assumes "stored_conforms sch buf" "field_of buf k f = Some a"
  shows "sch k f = Some (tl (shape a))"
proof -
  from assms(2) obtain fs where "map_of buf k = Some fs" "map_of fs f = Some a"
    by (rule field_of_SomeD)
  then have "(k, fs) \<in> set buf" "(f, a) \<in> set fs"
    by (auto dest: map_of_SomeD)
  with assms(1) show ?thesis
    by (auto simp: stored_conforms_def list_all_iff)
qed

lemma conformsD:
  assumes "conforms sch d" "field_of d k f = Some v"
  shows "sch k f = Some (shape v)"
proof -
  from assms(2) obtain fs where "map_of d k = Some fs" "map_of fs f = Some v"
    by (rule field_of_SomeD)
  then have "(k, fs) \<in> set d" "(f, v) \<in> set fs"
    by (auto dest: map_of_SomeD)
  with assms(1) show ?thesis
    by (auto simp: conforms_def list_all_iff)
qed

lemma add_conforms:
  assumes "add cast b d = Inr b'" "wf_buffer b" "wf_data d"
    and "stored_conforms sch (buffer b)" "conforms sch d"
  shows "stored_conforms sch (buffer b')"
proof (rule stored_conformsI)
  have "wf_buffer b'"
    using assms(1) _ assms(2,3) by (rule add_wf) simp
  then show "wf_store (nat (max_horizon b')) (buffer b')"
    by (simp add: wf_buffer_def)
  from assms(2) have mh: "0 \<le> max_horizon b"
    by (simp add: wf_buffer_def)
  fix k f a' assume fo: "field_of (buffer b') k f = Some a'"
  show "sch k f = Some (tl (shape a'))"
  proof (cases "field_of d k f")
    case None
    from add_field_kept [OF assms(1,3) None] fo have "field_of (buffer b) k f = Some a'"
      by simp
    with assms(4) show ?thesis
      by (rule stored_conformsD)
  next
    case (Some v)
    from add_field_written [OF assms(1,3) Some] fo obtain a
      where fs: "field_store (max_horizon b) (fields_of (buffer b) k) f v = Inr a"
        and st: "setitem cast a (pointer b) v = Inr a'"
      by auto
    from conformsD [OF assms(5) Some] have sv: "sch k f = Some (shape v)" .
    have "sch k f = Some (tl (shape a))"
    proof (cases "map_of (fields_of (buffer b) k) f")
      case None
      with fs mh sv show ?thesis
        by (auto simp: field_store_def np_empty_ring)
    next
      case (Some a0)
      with fs have "field_of (buffer b) k f = Some a"
        by (simp add: field_store_def field_of_def)
      with assms(4) show ?thesis
        by (rule stored_conformsD)
    qed
    with setitem_shape [OF st] show ?thesis
      by simp
  qed
qed

lemma adds_ok:
  assumes "wf_buffer b" "ring_inv b" "ds = [] \<or> max_horizon b \<noteq> 0"
    and "stored_conforms sch (buffer b)"
    and "list_all wf_data ds" "list_all (conforms sch) ds"
  shows "\<exists>b'. adds cast b ds = Inr b'"
  using assms
proof (induction ds arbitrary: b)
  case Nil
  then show ?case by simp
next
  case (Cons d ds)
  from Cons.prems have mh: "max_horizon b \<noteq> 0" and wd: "wf_data d" and cd: "conforms sch d"
    by simp_all
  have "fits (buffer b) d"
    using Cons.prems(4) cd by (rule fits_of_conforms)
  from add_ok [OF Cons.prems(1,2) mh wd this] obtain b1 where b1: "add cast b d = Inr b1"
    by blast
  have w1: "wf_buffer b1"
    using b1 _ Cons.prems(1) wd by (rule add_wf) simp
  have r1: "ring_inv b1"
    using b1 Cons.prems(2) by (rule add_ring)
  have m1: "ds = [] \<or> max_horizon b1 \<noteq> 0"
    using b1 mh by (auto elim!: add_Inr)
  have c1: "stored_conforms sch (buffer b1)"
    using b1 Cons.prems(1) wd Cons.prems(4) cd by (rule add_conforms)
  from Cons.IH [OF w1 r1 m1 c1] Cons.prems(5,6) obtain b' where "adds cast b1 ds = Inr b'"
    by auto
  with b1 show ?case
    by simp
qed

section \<open>Sampled slots have been written\<close>

lemma adds_append:
  "adds cast b (xs @ ys) = (case adds cast b xs of Inl r \<Rightarrow> Inl r | Inr b1 \<Rightarrow> adds cast b1 ys)"
  by (induction xs arbitrary: b) (auto split: sum.splits)

lemma adds_take:
  assumes "adds cast b ds = Inr b'"
  shows "\<exists>b1. adds cast b (take n ds) = Inr b1"
proof -
  have "adds cast b (take n ds @ drop n ds) = Inr b'"
    using assms by simp
  then show ?thesis
    unfolding adds_append by (auto split: sum.splits)
qed

lemma adds_fresh_counters:
  assumes "init nc bs bsz ts = Inr b0" "adds cast b0 ds = Inr b" "int (length ds) \<le> max_horizon b0"
  shows "horizon_length b = int (length ds)"
    and "int (length ds) < max_horizon b0 \<Longrightarrow> pointer b = int (length ds)"
proof -
  from assms(1) have i: "pointer b0 = 0" "horizon_length b0 = 0"
    by (auto dest: init_counters)
  show "horizon_length b = int (length ds)"
  proof (cases "ds = []")
    case True
    with assms(2) i show ?thesis by simp
  next
    case False
    with adds_counters [OF assms(2)] i assms(3) show ?thesis by simp
  qed
  assume lt: "int (length ds) < max_horizon b0"
  show "pointer b = int (length ds)"
  proof (cases "ds = []")
    case True
    with assms(2) i show ?thesis by simp
  next
    case False
    with adds_counters [OF assms(2)] i lt show ?thesis by simp
  qed
qed

text \<open>
  C2. On a fresh buffer, a run of \<open>N \<le> max_horizon\<close> calls of \<open>add\<close> with consistent
  shapes returns. After any run of \<open>N \<le> max_horizon\<close> calls that returned, every time
  index in the index arrays of \<open>sample(timestep=1)\<close> is at least 0 and below \<open>N\<close>, and it is
  the position the pointer had when one of those \<open>N\<close> calls wrote its slot: the index
  arithmetic never selects a slot that no call has written.
\<close>

theorem sample_draws_written_slots:
  assumes "init nc bs bsz ts = Inr b0" and "int (length ds) \<le> max_horizon b0"
  shows "(list_all wf_data ds \<and> list_all (conforms sch) ds \<longrightarrow> (\<exists>b. adds cast b0 ds = Inr b)) \<and>
         (adds cast b0 ds = Inr b \<and> sample_idxs b g batchsize (Some 1) = Inr ((x, xs, y), g') \<longrightarrow>
            (\<forall>row \<in> set xs. \<forall>i \<in> set row.
               0 \<le> i \<and> i < int (length ds) \<and>
               (\<exists>n b1. n < length ds \<and> adds cast b0 (take n ds) = Inr b1 \<and> pointer b1 = i)))"
proof (intro conjI impI)
  assume c: "list_all wf_data ds \<and> list_all (conforms sch) ds"
  from assms(2) have mh: "0 \<le> max_horizon b0"
    by linarith
  have "ds = [] \<or> max_horizon b0 \<noteq> 0"
    using assms(2) by (cases ds) auto
  moreover have "stored_conforms sch (buffer b0)"
    using assms(1) by (auto dest: init_counters simp: stored_conforms_def)
  moreover from c have "list_all wf_data ds" "list_all (conforms sch) ds"
    by blast+
  ultimately show "\<exists>b. adds cast b0 ds = Inr b"
    by (rule adds_ok [OF init_wf [OF assms(1) mh] init_ring [OF assms(1) mh]])
next
  assume run: "adds cast b0 ds = Inr b \<and> sample_idxs b g batchsize (Some 1) = Inr ((x, xs, y), g')"
  show "\<forall>row \<in> set xs. \<forall>i \<in> set row.
          0 \<le> i \<and> i < int (length ds) \<and>
          (\<exists>n b1. n < length ds \<and> adds cast b0 (take n ds) = Inr b1 \<and> pointer b1 = i)"
  proof (intro ballI)
    fix row i
    assume row: "row \<in> set xs" and i: "i \<in> set row"
    from run have adds: "adds cast b0 ds = Inr b"
      and si: "sample_idxs b g batchsize (Some 1) = Inr ((x, xs, y), g')"
      by simp_all
    note I = sample_idxs_Inr [OF si]
    have hl: "horizon_length b = int (length ds)"
      using assms(1) adds assms(2) by (rule adds_fresh_counters(1))
    from I(1) hl have "1 \<le> int (length ds)"
      by simp
    then have pos: "0 < int (length ds)"
      by linarith
    from row i obtain z where "i = z mod horizon_length b"
      by (auto simp: I(7))
    with hl pos have r: "0 \<le> i" "i < int (length ds)"
      by simp_all
    then have n: "nat i < length ds"
      by simp
    from adds_take [OF adds, of "nat i"] obtain b1
      where b1: "adds cast b0 (take (nat i) ds) = Inr b1"
      by blast
    have "int (length (take (nat i) ds)) < max_horizon b0"
      using n r assms(2) by simp
    with adds_fresh_counters(2) [OF assms(1) b1] have "pointer b1 = int (length (take (nat i) ds))"
      by simp
    with n r have "pointer b1 = i"
      by simp
    with r n b1 show "0 \<le> i \<and> i < int (length ds) \<and>
             (\<exists>n b1. n < length ds \<and> adds cast b0 (take n ds) = Inr b1 \<and> pointer b1 = i)"
      by blast
  qed
qed

theorem sample_draws_written_slots_witness:
  "list_all wf_data [marked 0, marked 1, marked 2, marked 3] \<and>
   list_all (conforms marked_schema) [marked 0, marked 1, marked 2, marked 3] \<and>
   init 2 4 8 2 = Inr fresh_buffer \<and>
   adds no_cast fresh_buffer [marked 0, marked 1, marked 2, marked 3] = Inr full_buffer \<and>
   int (length [marked 0, marked 1, marked 2, marked 3]) \<le> max_horizon fresh_buffer \<and>
   (\<exists>x xs y g'. sample_idxs full_buffer (\<lambda>i. 0) None (Some 1) = Inr ((x, xs, y), g') \<and>
      xs \<noteq> [] \<and> hd xs \<noteq> [] \<and> 0 \<le> hd (hd xs) \<and> hd (hd xs) < 4)"
proof -
  have m: "int (length [marked 0, marked 1, marked 2, marked 3]) \<le> max_horizon fresh_buffer"
    by (simp add: fresh_buffer_def)
  have "\<exists>x xs y g'. sample_idxs full_buffer (\<lambda>i. 0) None (Some 1) = Inr ((x, xs, y), g')"
    by (rule sample_idxs_ok [OF scenario_ring]) (simp_all add: full_buffer_def filled_def)
  then obtain x xs y g'
    where si: "sample_idxs full_buffer (\<lambda>i. 0) None (Some 1) = Inr ((x, xs, y), g')"
    by blast
  note I = sample_idxs_Inr [OF si]
  have "length x = 4"
    using I(3) by (simp add: full_buffer_def filled_def)
  then have x: "x \<noteq> []"
    by auto
  with I(7) have ne: "xs \<noteq> []" "hd xs \<noteq> []"
    by (simp_all add: upt_rec)
  then have "hd xs \<in> set xs" "hd (hd xs) \<in> set (hd xs)"
    by simp_all
  note h = this
  note T = sample_draws_written_slots
             [where cast = no_cast and ds = "[marked 0, marked 1, marked 2, marked 3]"
                and b = full_buffer and g = "\<lambda>i. 0" and batchsize = None
                and x = x and xs = xs and y = y and g' = g' and sch = marked_schema,
              OF scenario_init m]
  from T scenario_adds si
  have "\<forall>row \<in> set xs. \<forall>i \<in> set row. 0 \<le> i \<and>
          i < int (length [marked 0, marked 1, marked 2, marked 3])"
    by blast
  with h have "0 \<le> hd (hd xs) \<and> hd (hd xs) < 4"
    by fastforce
  moreover have "list_all wf_data [marked 0, marked 1, marked 2, marked 3]"
    by (simp add: wf_data_marked)
  moreover have "list_all (conforms marked_schema) [marked 0, marked 1, marked 2, marked 3]"
    by (simp add: conforms_def marked_def marked_schema_def)
  ultimately show ?thesis
    using scenario_init scenario_adds m si ne by blast
qed

end
